theory Spec2Isabelle
  imports Main "HOL-Library.Word"
begin

unbundle bit_operations_syntax

section \<open>Bytes, Go slices and errors\<close>

type_synonym byte = "8 word"
type_synonym bytes = "byte list"

text \<open>
  The failures of the two source files as values. \<open>Panic\<close> is a Go run-time panic
  (index or slice bounds out of range, nil dereference); the other constructors are
  the error values that the functions return.
\<close>

datatype error =
    Panic
  | EOF
  | TruncatedInput
  | MalformedContainer string
  | InvalidKeyLength
  | InvalidIVLength

text \<open>
  A Go slice is a window on a backing array: \<open>backing\<close> holds the array from the first
  element of the slice up to its capacity, \<open>slen\<close> is the length of the slice. A slice
  expression \<open>s[lo:hi]\<close> on a slice is in range when \<open>0 \<le> lo \<le> hi \<le> cap(s)\<close> (the
  upper bound is the capacity, not the length) and panics otherwise.
\<close>

record slice =
  backing :: bytes
  slen :: nat

definition cap :: "slice \<Rightarrow> nat" where
  "cap s = length (backing s)"

definition contents :: "slice \<Rightarrow> bytes" where
  "contents s = take (slen s) (backing s)"

definition mk_slice :: "bytes \<Rightarrow> slice" where
  "mk_slice bs = \<lparr>backing = bs, slen = length bs\<rparr>"

definition go_slice :: "slice \<Rightarrow> nat \<Rightarrow> nat \<Rightarrow> error + slice" where
  "go_slice s lo hi =
     (if lo \<le> hi \<and> hi \<le> cap s
      then Inr \<lparr>backing = drop lo (backing s), slen = hi - lo\<rparr>
      else Inl Panic)"

text \<open>Big-endian integers, as \<open>encoding/binary.BigEndian\<close> reads and writes them.\<close>

definition be_bytes :: "nat \<Rightarrow> 'a::len word \<Rightarrow> bytes" where
  "be_bytes n w = map (\<lambda>i. ucast (drop_bit (8 * (n - 1 - i)) w)) [0..<n]"

definition be_word :: "bytes \<Rightarrow> 'a::len word" where
  "be_word bs = foldl (\<lambda>acc b. push_bit 8 acc OR ucast b) 0 bs"

section \<open>CENC decryption (examples/decrypt-cenc/main.go)\<close>

subsection \<open>Counter mode\<close>

text \<open>
  Modelled from the spec: \<open>mp4.DecryptSampleCTR\<close> is called by \<open>decryptSample\<close> but is not
  among the source files. The spec describes counter mode as a keystream generated from
  a key and an incrementing counter seeded by the IV, combined with the data, and names
  wrong-length keys and IVs as errors. The block cipher itself is the parameter \<open>E\<close>
  (key, 128-bit counter block to 128-bit keystream block). Each call builds its keystream
  from the IV it is given: the function has no other state.
\<close>

type_synonym cipher = "bytes \<Rightarrow> 128 word \<Rightarrow> 128 word"

definition keystream :: "cipher \<Rightarrow> bytes \<Rightarrow> bytes \<Rightarrow> nat \<Rightarrow> bytes" where
  "keystream E key iv n =
     concat (map (\<lambda>j. be_bytes 16 (E key (be_word iv + of_nat j))) [0..<n])"

definition xor_bytes :: "bytes \<Rightarrow> bytes \<Rightarrow> bytes" where
  "xor_bytes xs ks = map (\<lambda>(x, k). x XOR k) (zip xs ks)"

subsection \<open>The block cipher: AES-128\<close>

text \<open>
  The \<open>cenc\<close> scheme that \<open>createVideoInit\<close> insists on is AES-128 in counter mode
  (ISO/IEC 23001-7), and \<open>start\<close> accepts 16-byte keys only. AES is not part of the
  repository (the Go code takes it from \<open>crypto/aes\<close>); it is written out here after
  FIPS-197 so that the theorems below can be run on concrete samples. The state is the
  16-byte block in input order (column-major).
\<close>

definition sbox :: bytes where
  "sbox =
    [
     0x63, 0x7c, 0x77, 0x7b, 0xf2, 0x6b, 0x6f, 0xc5, 0x30, 0x01, 0x67, 0x2b, 0xfe, 0xd7, 0xab, 0x76,
     0xca, 0x82, 0xc9, 0x7d, 0xfa, 0x59, 0x47, 0xf0, 0xad, 0xd4, 0xa2, 0xaf, 0x9c, 0xa4, 0x72, 0xc0,
     0xb7, 0xfd, 0x93, 0x26, 0x36, 0x3f, 0xf7, 0xcc, 0x34, 0xa5, 0xe5, 0xf1, 0x71, 0xd8, 0x31, 0x15,
     0x04, 0xc7, 0x23, 0xc3, 0x18, 0x96, 0x05, 0x9a, 0x07, 0x12, 0x80, 0xe2, 0xeb, 0x27, 0xb2, 0x75,
     0x09, 0x83, 0x2c, 0x1a, 0x1b, 0x6e, 0x5a, 0xa0, 0x52, 0x3b, 0xd6, 0xb3, 0x29, 0xe3, 0x2f, 0x84,
     0x53, 0xd1, 0x00, 0xed, 0x20, 0xfc, 0xb1, 0x5b, 0x6a, 0xcb, 0xbe, 0x39, 0x4a, 0x4c, 0x58, 0xcf,
     0xd0, 0xef, 0xaa, 0xfb, 0x43, 0x4d, 0x33, 0x85, 0x45, 0xf9, 0x02, 0x7f, 0x50, 0x3c, 0x9f, 0xa8,
     0x51, 0xa3, 0x40, 0x8f, 0x92, 0x9d, 0x38, 0xf5, 0xbc, 0xb6, 0xda, 0x21, 0x10, 0xff, 0xf3, 0xd2,
     0xcd, 0x0c, 0x13, 0xec, 0x5f, 0x97, 0x44, 0x17, 0xc4, 0xa7, 0x7e, 0x3d, 0x64, 0x5d, 0x19, 0x73,
     0x60, 0x81, 0x4f, 0xdc, 0x22, 0x2a, 0x90, 0x88, 0x46, 0xee, 0xb8, 0x14, 0xde, 0x5e, 0x0b, 0xdb,
     0xe0, 0x32, 0x3a, 0x0a, 0x49, 0x06, 0x24, 0x5c, 0xc2, 0xd3, 0xac, 0x62, 0x91, 0x95, 0xe4, 0x79,
     0xe7, 0xc8, 0x37, 0x6d, 0x8d, 0xd5, 0x4e, 0xa9, 0x6c, 0x56, 0xf4, 0xea, 0x65, 0x7a, 0xae, 0x08,
     0xba, 0x78, 0x25, 0x2e, 0x1c, 0xa6, 0xb4, 0xc6, 0xe8, 0xdd, 0x74, 0x1f, 0x4b, 0xbd, 0x8b, 0x8a,
     0x70, 0x3e, 0xb5, 0x66, 0x48, 0x03, 0xf6, 0x0e, 0x61, 0x35, 0x57, 0xb9, 0x86, 0xc1, 0x1d, 0x9e,
     0xe1, 0xf8, 0x98, 0x11, 0x69, 0xd9, 0x8e, 0x94, 0x9b, 0x1e, 0x87, 0xe9, 0xce, 0x55, 0x28, 0xdf,
     0x8c, 0xa1, 0x89, 0x0d, 0xbf, 0xe6, 0x42, 0x68, 0x41, 0x99, 0x2d, 0x0f, 0xb0, 0x54, 0xbb, 0x16]"

definition SubBytes :: "bytes \<Rightarrow> bytes" where
  "SubBytes s = map (\<lambda>b. sbox ! unat b) s"

definition ShiftRows :: "bytes \<Rightarrow> bytes" where
  "ShiftRows s = map (\<lambda>i. s ! ((i mod 4) + 4 * ((i div 4 + i mod 4) mod 4))) [0..<16]"

definition xtime :: "byte \<Rightarrow> byte" where
  "xtime a = (if bit a 7 then push_bit 1 a XOR 0x1b else push_bit 1 a)"

fun MixColumns :: "bytes \<Rightarrow> bytes" where
  "MixColumns (a0 # a1 # a2 # a3 # rest) =
     (xtime a0 XOR (xtime a1 XOR a1) XOR a2 XOR a3) #
     (a0 XOR xtime a1 XOR (xtime a2 XOR a2) XOR a3) #
     (a0 XOR a1 XOR xtime a2 XOR (xtime a3 XOR a3)) #
     ((xtime a0 XOR a0) XOR a1 XOR a2 XOR xtime a3) # MixColumns rest"
| "MixColumns rest = []"

definition next_round_key :: "bytes \<Rightarrow> byte \<Rightarrow> bytes" where
  "next_round_key rk rcon =
     (let w0 = take 4 rk; w1 = take 4 (drop 4 rk); w2 = take 4 (drop 8 rk); w3 = drop 12 rk;
          t = xor_bytes (SubBytes (drop 1 w3 @ take 1 w3)) [rcon, 0, 0, 0];
          v0 = xor_bytes w0 t; v1 = xor_bytes w1 v0; v2 = xor_bytes w2 v1; v3 = xor_bytes w3 v2
      in v0 @ v1 @ v2 @ v3)"

fun aes_rounds :: "bytes \<Rightarrow> bytes \<Rightarrow> byte list \<Rightarrow> bytes" where
  "aes_rounds s rk [] = s"
| "aes_rounds s rk [rcon] =
     xor_bytes (ShiftRows (SubBytes s)) (next_round_key rk rcon)"
| "aes_rounds s rk (rcon # rcons) =
     (let rk1 = next_round_key rk rcon
      in aes_rounds (xor_bytes (MixColumns (ShiftRows (SubBytes s))) rk1) rk1 rcons)"

definition aes128_encrypt :: "bytes \<Rightarrow> bytes \<Rightarrow> bytes" where
  "aes128_encrypt key blk =
     aes_rounds (xor_bytes blk key) key
       [0x01, 0x02, 0x04, 0x08, 0x10, 0x20, 0x40, 0x80, 0x1b, 0x36]"

definition aes128 :: cipher where
  "aes128 key blk = be_word (aes128_encrypt key (be_bytes 16 blk))"

subsection \<open>Counter-mode decryption of one span\<close>

definition ctr_at :: "cipher \<Rightarrow> bytes \<Rightarrow> bytes \<Rightarrow> nat \<Rightarrow> bytes \<Rightarrow> bytes" where
  \<comment> \<open>the data combined with the keystream bytes from offset \<open>off\<close> on\<close>
  "ctr_at E key iv off xs =
     xor_bytes xs (drop off (keystream E key iv ((off + length xs + 15) div 16)))"

definition DecryptSampleCTR :: "cipher \<Rightarrow> bytes \<Rightarrow> bytes \<Rightarrow> bytes \<Rightarrow> error + bytes" where
  "DecryptSampleCTR E sample key iv =
     (if length key \<noteq> 16 then Inl InvalidKeyLength
      else if length iv \<noteq> 16 then Inl InvalidIVLength
      else Inr (ctr_at E key iv 0 sample))"

subsection \<open>Samples and encryption metadata\<close>

text \<open>
  \<open>mp4.FullSample\<close> and \<open>mp4.SencBox\<close> are declared outside the source files; only the
  fields that \<open>decryptSample\<close> touches are modelled. The \<open>Sample\<close> struct is copied as a
  whole, so it is a type parameter.
\<close>

record 's FullSample =
  Sample :: 's
  DecodeTime :: "64 word"
  Data :: slice

record SubSamplePattern =
  BytesOfClearData :: "16 word"
  BytesOfProtectedData :: "32 word"

record SencBox =
  IVs :: "bytes list"
  SubSamples :: "SubSamplePattern list list"

subsection \<open>decryptSample\<close>

definition normalize_iv :: "bytes \<Rightarrow> bytes" where
  \<comment> \<open>lines 217-224\<close>
  "normalize_iv iv0 = (if length iv0 = 8 then iv0 @ [0, 0, 0, 0, 0, 0, 0, 0] else iv0)"

text \<open>
  The loop of lines 230-241 over the subsample list \<open>ss\<close>, with the running position
  \<open>pos\<close> (a \<open>uint32\<close>) and the output accumulated so far.
\<close>

fun subsample_loop ::
  "cipher \<Rightarrow> slice \<Rightarrow> bytes \<Rightarrow> bytes \<Rightarrow> SubSamplePattern list \<Rightarrow> 32 word \<Rightarrow> bytes
     \<Rightarrow> error + bytes" where
  "subsample_loop E data key iv [] pos outData = Inr outData"
| "subsample_loop E data key iv (s # ss) pos outData =
     (let nrClear = (ucast (BytesOfClearData s) :: 32 word);
          nrEnc = BytesOfProtectedData s
      in case go_slice data (unat pos) (unat (pos + nrClear)) of
           Inl e \<Rightarrow> Inl e
         | Inr clr \<Rightarrow>
            (let outData1 = outData @ contents clr;
                 pos1 = pos + nrClear
             in case go_slice data (unat pos1) (unat (pos1 + nrEnc)) of
                  Inl e \<Rightarrow> Inl e
                | Inr enc \<Rightarrow>
                   (case DecryptSampleCTR E (contents enc) key iv of
                      Inl e \<Rightarrow> Inl e
                    | Inr cryptOut \<Rightarrow>
                        subsample_loop E data key iv ss (pos1 + nrEnc) (outData1 @ cryptOut))))"

text \<open>
  Lines 226-248: the payload of the output sample. With a non-empty \<open>senc.SubSamples\<close>
  the subsample list of sample \<open>i\<close> is walked (\<open>senc.SubSamples[i]\<close> panics out of
  range); otherwise the whole sample is one protected span.
\<close>

definition decrypt_payload ::
  "cipher \<Rightarrow> 32 word \<Rightarrow> slice \<Rightarrow> bytes \<Rightarrow> bytes \<Rightarrow> SubSamplePattern list list
     \<Rightarrow> error + bytes" where
  "decrypt_payload E i data key iv subSamples =
     (if length subSamples \<noteq> 0
      then (if length subSamples \<le> unat i then Inl Panic
            else subsample_loop E data key iv (subSamples ! unat i) 0 [])
      else DecryptSampleCTR E (contents data) key iv)"

text \<open>
  \<open>decryptSample\<close>: \<open>senc\<close> is a pointer (\<open>None\<close> is nil); \<open>samples[i]\<close> and
  \<open>senc.IVs[i]\<close> panic out of range. The output sample copies \<open>Sample\<close> and
  \<open>DecodeTime\<close> and carries the new payload.
\<close>

definition decryptSample ::
  "cipher \<Rightarrow> 32 word \<Rightarrow> 's FullSample list \<Rightarrow> bytes \<Rightarrow> SencBox option
     \<Rightarrow> error + 's FullSample" where
  "decryptSample E i samples key senc =
     (if length samples \<le> unat i then Inl Panic
      else case senc of
          None \<Rightarrow> Inl Panic
        | Some se \<Rightarrow>
           (if length (IVs se) \<le> unat i then Inl Panic
            else case decrypt_payload E i (Data (samples ! unat i)) key
                        (normalize_iv (IVs se ! unat i)) (SubSamples se) of
                   Inl e \<Rightarrow> Inl e
                 | Inr outData \<Rightarrow>
                     Inr \<lparr>Sample = Sample (samples ! unat i),
                          DecodeTime = DecodeTime (samples ! unat i),
                          Data = mk_slice outData\<rparr>))"

subsection \<open>Reference descriptions of the subsample walk\<close>

text \<open>
  The number of bytes that a subsample list describes.
\<close>

definition subsample_total :: "SubSamplePattern list \<Rightarrow> nat" where
  "subsample_total ss =
     sum_list (map (\<lambda>s. unat (BytesOfClearData s) + unat (BytesOfProtectedData s)) ss)"

text \<open>
  Two descriptions of what a walk over the subsample list produces from the bytes
  \<open>rest\<close>. \<open>continuous_spans\<close> follows the spec: one keystream for the whole sample,
  the protected span of each subsample combined with the keystream bytes that follow
  those used by the spans before it (\<open>off\<close> counts the protected bytes so far).
  \<open>restarted_spans\<close> begins the keystream again at every protected span.
\<close>

fun continuous_spans ::
  "cipher \<Rightarrow> bytes \<Rightarrow> bytes \<Rightarrow> SubSamplePattern list \<Rightarrow> bytes \<Rightarrow> nat \<Rightarrow> bytes" where
  "continuous_spans E key iv [] rest off = []"
| "continuous_spans E key iv (s # ss) rest off =
     (let c = unat (BytesOfClearData s); p = unat (BytesOfProtectedData s)
      in take c rest @ ctr_at E key iv off (take p (drop c rest))
         @ continuous_spans E key iv ss (drop (c + p) rest) (off + p))"

fun restarted_spans ::
  "cipher \<Rightarrow> bytes \<Rightarrow> bytes \<Rightarrow> SubSamplePattern list \<Rightarrow> bytes \<Rightarrow> bytes" where
  "restarted_spans E key iv [] rest = []"
| "restarted_spans E key iv (s # ss) rest =
     (let c = unat (BytesOfClearData s); p = unat (BytesOfProtectedData s)
      in take c rest @ ctr_at E key iv 0 (take p (drop c rest))
         @ restarted_spans E key iv ss (drop (c + p) rest))"

section \<open>The wvtt boxes (mp4 package, ISO/IEC 14496-30)\<close>

subsection \<open>Boxes\<close>

text \<open>
  A Go \<open>string\<close> is a sequence of bytes, as an Isabelle \<open>string\<close> is; \<open>string(data)\<close>
  and \<open>[]byte(s)\<close> copy the bytes.
\<close>

definition string_of_bytes :: "bytes \<Rightarrow> string" where
  "string_of_bytes bs = map (\<lambda>b. char_of (unat b)) bs"

definition bytes_of_string :: "string \<Rightarrow> bytes" where
  "bytes_of_string s = map (\<lambda>c. of_nat (of_char c)) s"

text \<open>
  The \<open>Box\<close> interface with the implementations of this file as its variants. The
  pointer fields of the two containers (\<open>VttC\<close>, \<open>Vlab\<close>, ..., \<open>Payl\<close>) hold the box
  they point to, \<open>None\<close> for nil. \<open>BtrtBox\<close> is declared elsewhere in the package and
  appears here only in the type switch of \<open>WvttBox.AddChild\<close>; like the box of an
  unregistered type (\<open>UnknownBox\<close>) it is kept as its raw payload.
\<close>

datatype Box =
    WvttBox (VttC: "Box option") (Vlab: "Box option") (Btrt: "Box option")
      (Children: "Box list") (DataReferenceIndex: "16 word")
  | VttCBox (Config: string)
  | VlabBox (SourceLabel: string)
  | VtteBox
  | VttcBox (Vsid: "Box option") (Iden: "Box option") (Ctim: "Box option")
      (Sttg: "Box option") (Payl: "Box option") (Children: "Box list")
  | VsidBox (SourceID: "32 word")
  | CtimBox (CueCurrentTime: string)
  | IdenBox (CueID: string)
  | SttgBox (Settings: string)
  | PaylBox (CueText: string)
  | VttaBox (CueAdditionalText: string)
  | BtrtBox (RawBtrt: bytes)
  | UnknownBox (UnknownName: string) (UnknownData: bytes)

definition NewWvttBox :: Box where
  "NewWvttBox = WvttBox None None None [] 1"

fun WvttBox_AddChild :: "Box \<Rightarrow> Box \<Rightarrow> Box" where
  "WvttBox_AddChild (WvttBox vttC vlab btrt children dri) child =
     (case child of
        VttCBox _ \<Rightarrow> WvttBox (Some child) vlab btrt (children @ [child]) dri
      | VlabBox _ \<Rightarrow> WvttBox vttC (Some child) btrt (children @ [child]) dri
      | BtrtBox _ \<Rightarrow> WvttBox vttC vlab (Some child) (children @ [child]) dri
      | _ \<Rightarrow> WvttBox vttC vlab btrt (children @ [child]) dri)"

fun VttcBox_AddChild :: "Box \<Rightarrow> Box \<Rightarrow> Box" where
  "VttcBox_AddChild (VttcBox vsid iden ctim sttg payl children) child =
     (case child of
        VsidBox _ \<Rightarrow> VttcBox (Some child) iden ctim sttg payl (children @ [child])
      | IdenBox _ \<Rightarrow> VttcBox vsid (Some child) ctim sttg payl (children @ [child])
      | CtimBox _ \<Rightarrow> VttcBox vsid iden (Some child) sttg payl (children @ [child])
      | SttgBox _ \<Rightarrow> VttcBox vsid iden ctim (Some child) payl (children @ [child])
      | PaylBox _ \<Rightarrow> VttcBox vsid iden ctim sttg (Some child) (children @ [child])
      | _ \<Rightarrow> VttcBox vsid iden ctim sttg payl (children @ [child]))"

fun Type :: "Box \<Rightarrow> string" where
  "Type (WvttBox _ _ _ _ _) = ''wvtt''"
| "Type (VttCBox _) = ''vttC''"
| "Type (VlabBox _) = ''vlab''"
| "Type VtteBox = ''vtte''"
| "Type (VttcBox _ _ _ _ _ _) = ''vttc''"
| "Type (VsidBox _) = ''vsid''"
| "Type (CtimBox _) = ''ctim''"
| "Type (IdenBox _) = ''iden''"
| "Type (SttgBox _) = ''sttg''"
| "Type (PaylBox _) = ''payl''"
| "Type (VttaBox _) = ''vtta''"
| "Type (BtrtBox _) = ''btrt''"
| "Type (UnknownBox n _) = n"

subsection \<open>Sizes\<close>

text \<open>
  Modelled from the spec: the constant \<open>boxHeaderSize\<close> and the function
  \<open>containerSize\<close> are used by this file and declared elsewhere. The compact box header
  has a 4-byte size and a 4-byte type; the size of a container is the header size plus
  the sum of the sizes of its children, computed when asked for.
\<close>

definition boxHeaderSize :: nat where
  "boxHeaderSize = 8"

definition nrWvttBytesBeforeChildren :: nat where
  "nrWvttBytesBeforeChildren = 16"

definition sum_sizes :: "64 word \<Rightarrow> 64 word list \<Rightarrow> 64 word" where
  \<comment> \<open>\<open>for _, child := range children { totalSize += child.Size() }\<close>\<close>
  "sum_sizes start sizes = foldl (\<lambda>totalSize childSize. totalSize + childSize) start sizes"

fun Size :: "Box \<Rightarrow> 64 word" where
  "Size (WvttBox _ _ _ children _) =
     sum_sizes (of_nat nrWvttBytesBeforeChildren) (map Size children)"
| "Size (VttCBox config) = of_nat (boxHeaderSize + length config)"
| "Size (VlabBox sourceLabel) = of_nat (boxHeaderSize + length sourceLabel)"
| "Size VtteBox = of_nat boxHeaderSize"
| "Size (VttcBox _ _ _ _ _ children) =
     sum_sizes (of_nat boxHeaderSize) (map Size children)"
| "Size (VsidBox _) = of_nat (boxHeaderSize + 4)"
| "Size (CtimBox cueCurrentTime) = of_nat (boxHeaderSize + length cueCurrentTime)"
| "Size (IdenBox cueID) = of_nat (boxHeaderSize + length cueID)"
| "Size (SttgBox settings) = of_nat (boxHeaderSize + length settings)"
| "Size (PaylBox cueText) = of_nat (boxHeaderSize + length cueText)"
| "Size (VttaBox cueAdditionalText) = of_nat (boxHeaderSize + length cueAdditionalText)"
| "Size (BtrtBox raw) = of_nat (boxHeaderSize + length raw)"
| "Size (UnknownBox _ raw) = of_nat (boxHeaderSize + length raw)"

definition containerSize :: "Box list \<Rightarrow> 64 word" where
  "containerSize children = sum_sizes (of_nat boxHeaderSize) (map Size children)"

subsection \<open>Encoding\<close>

text \<open>
  Modelled from the spec: \<open>EncodeHeader\<close> and \<open>EncodeContainer\<close> are called by this file
  and declared elsewhere. The header is the 32-bit size when the size fits, otherwise
  the size field 1 followed (after the type) by the 64-bit size; the type code is
  written as its four raw bytes. A container is its header followed by its children
  in list order, with no padding. The writer is an in-memory buffer: \<open>Encode\<close> returns
  the bytes written.
\<close>

definition EncodeHeader :: "64 word \<Rightarrow> string \<Rightarrow> bytes" where
  "EncodeHeader sz tp =
     (if sz < 2 ^ 32
      then be_bytes 4 (ucast sz :: 32 word) @ bytes_of_string tp
      else be_bytes 4 (1 :: 32 word) @ bytes_of_string tp @ be_bytes 8 sz)"

fun Encode :: "Box \<Rightarrow> bytes" where
  "Encode (WvttBox vttC vlab btrt children dri) =
     EncodeHeader (Size (WvttBox vttC vlab btrt children dri)) ''wvtt''
     @ (replicate 6 0 @ be_bytes 2 dri)
     @ concat (map Encode children)"
| "Encode (VttCBox config) =
     EncodeHeader (Size (VttCBox config)) ''vttC'' @ bytes_of_string config"
| "Encode (VlabBox sourceLabel) =
     EncodeHeader (Size (VlabBox sourceLabel)) ''vlab'' @ bytes_of_string sourceLabel"
| "Encode VtteBox = EncodeHeader (Size VtteBox) ''vtte''"
| "Encode (VttcBox vsid iden ctim sttg payl children) =
     EncodeHeader (Size (VttcBox vsid iden ctim sttg payl children)) ''vttc''
     @ concat (map Encode children)"
| "Encode (VsidBox sourceID) =
     EncodeHeader (Size (VsidBox sourceID)) ''vsid'' @ be_bytes 4 sourceID"
| "Encode (CtimBox cueCurrentTime) =
     EncodeHeader (Size (CtimBox cueCurrentTime)) ''ctim'' @ bytes_of_string cueCurrentTime"
| "Encode (IdenBox cueID) =
     EncodeHeader (Size (IdenBox cueID)) ''iden'' @ bytes_of_string cueID"
| "Encode (SttgBox settings) =
     EncodeHeader (Size (SttgBox settings)) ''sttg'' @ bytes_of_string settings"
| "Encode (PaylBox cueText) =
     EncodeHeader (Size (PaylBox cueText)) ''payl'' @ bytes_of_string cueText"
| "Encode (VttaBox cueAdditionalText) =
     EncodeHeader (Size (VttaBox cueAdditionalText)) ''vtta''
     @ bytes_of_string cueAdditionalText"
| "Encode (BtrtBox raw) = EncodeHeader (Size (BtrtBox raw)) ''btrt'' @ raw"
| "Encode (UnknownBox n raw) = EncodeHeader (Size (UnknownBox n raw)) n @ raw"

subsection \<open>Readers and the box header\<close>

text \<open>
  An \<open>io.Reader\<close> over a buffered source is the list of the bytes not yet read.
  \<open>ioutil.ReadAll\<close> reads all of them; the slice it returns has a zero-filled capacity
  of at least 512 bytes, which is what a slice expression on it is checked against.
\<close>

definition ReadAll :: "bytes \<Rightarrow> slice" where
  "ReadAll r = \<lparr>backing = r @ replicate (512 - length r) 0, slen = length r\<rparr>"

text \<open>
  Modelled from the spec: the header codec (\<open>boxHeader\<close>, \<open>decodeHeader\<close>) is declared
  elsewhere. The header is a 4-byte size and a 4-byte type; a size field of 1 is
  followed by the 64-bit size; a size field of 0 means that the box extends to the end
  of its stream. An exhausted source is \<open>EOF\<close>, a header cut short is
  \<open>TruncatedInput\<close>.
\<close>

record boxHeader =
  hdr_name :: string
  hdr_size :: "64 word"
  hdrlen :: nat

definition decodeHeader :: "bytes \<Rightarrow> error + (boxHeader \<times> bytes)" where
  "decodeHeader r =
     (if r = [] then Inl EOF
      else if length r < 8 then Inl TruncatedInput
      else let size32 = (be_word (take 4 r) :: 32 word);
               name = string_of_bytes (take 4 (drop 4 r))
           in if size32 = 1
              then (if length r < 16 then Inl TruncatedInput
                    else Inr (\<lparr>hdr_name = name, hdr_size = be_word (take 8 (drop 8 r)),
                               hdrlen = 16\<rparr>, drop 16 r))
              else if size32 = 0
              then Inr (\<lparr>hdr_name = name, hdr_size = of_nat (length r), hdrlen = 8\<rparr>,
                        drop 8 r)
              else Inr (\<lparr>hdr_name = name, hdr_size = ucast size32, hdrlen = 8\<rparr>, drop 8 r))"

subsection \<open>Decoders of the leaf boxes\<close>

text \<open>
  A decoder gets the header, the start offset and the reader bounded to the payload;
  it returns the box and what it left unread of that reader.
\<close>

type_synonym decoder = "boxHeader \<Rightarrow> 64 word \<Rightarrow> bytes \<Rightarrow> error + (Box \<times> bytes)"

definition DecodeVttC :: decoder where
  "DecodeVttC hdr startPos r =
     (let data = ReadAll r in Inr (VttCBox (string_of_bytes (contents data)), []))"

definition DecodeVlab :: decoder where
  "DecodeVlab hdr startPos r =
     (let data = ReadAll r in Inr (VlabBox (string_of_bytes (contents data)), []))"

definition DecodeVtte :: decoder where
  "DecodeVtte hdr startPos r = Inr (VtteBox, r)"

definition DecodeVsid :: decoder where
  "DecodeVsid hdr startPos r =
     (let data = ReadAll r
      in case go_slice data 0 4 of
           Inl e \<Rightarrow> Inl e
         | Inr b \<Rightarrow> Inr (VsidBox (be_word (contents b)), []))"

definition DecodeCtim :: decoder where
  "DecodeCtim hdr startPos r =
     (let data = ReadAll r in Inr (CtimBox (string_of_bytes (contents data)), []))"

definition DecodeIden :: decoder where
  "DecodeIden hdr startPos r =
     (let data = ReadAll r in Inr (IdenBox (string_of_bytes (contents data)), []))"

definition DecodeSttg :: decoder where
  "DecodeSttg hdr startPos r =
     (let data = ReadAll r in Inr (SttgBox (string_of_bytes (contents data)), []))"

definition DecodePayl :: decoder where
  "DecodePayl hdr startPos r =
     (let data = ReadAll r in Inr (PaylBox (string_of_bytes (contents data)), []))"

definition DecodeVtta :: decoder where
  "DecodeVtta hdr startPos r =
     (let data = ReadAll r in Inr (VttaBox (string_of_bytes (contents data)), []))"

text \<open>
  Modelled from the spec: the decoders of \<open>btrt\<close> and of unregistered types are declared
  elsewhere; they keep the payload bytes as they are.
\<close>

definition DecodeBtrt :: decoder where
  "DecodeBtrt hdr startPos r = (let data = ReadAll r in Inr (BtrtBox (contents data), []))"

definition DecodeUnknown :: decoder where
  "DecodeUnknown hdr startPos r =
     (let data = ReadAll r in Inr (UnknownBox (hdr_name hdr) (contents data), []))"

text \<open>
  Modelled from the spec: the registry maps a type code to its decoder. The two
  containers are dispatched in \<open>DecodeBox\<close> itself, since their decoders call it.
\<close>

definition leaf_decoders :: "string \<Rightarrow> decoder option" where
  "leaf_decoders n =
     (if n = ''vttC'' then Some DecodeVttC
      else if n = ''vlab'' then Some DecodeVlab
      else if n = ''vtte'' then Some DecodeVtte
      else if n = ''vsid'' then Some DecodeVsid
      else if n = ''ctim'' then Some DecodeCtim
      else if n = ''iden'' then Some DecodeIden
      else if n = ''sttg'' then Some DecodeSttg
      else if n = ''payl'' then Some DecodePayl
      else if n = ''vtta'' then Some DecodeVtta
      else if n = ''btrt'' then Some DecodeBtrt
      else None)"

subsection \<open>The dispatcher and the decoders of the containers\<close>

text \<open>
  \<open>DecodeWvtt\<close>, its loop and \<open>DecodeVttc\<close> are the code of this file. Modelled from the
  spec: \<open>DecodeBox\<close> and \<open>DecodeContainerChildren\<close> are called by them and declared
  elsewhere. \<open>DecodeBox\<close> reads a header, looks the decoder up by the type code and calls
  it with a reader bounded to the declared payload length (\<open>TruncatedInput\<close> when the
  source has fewer bytes than declared); what the decoder leaves unread of the payload
  stays in the source. \<open>DecodeContainerChildren\<close> calls the dispatcher until the running
  offset equals the end offset; an offset beyond the end after a child, or the end of
  the stream before the end offset, is \<open>MalformedContainer\<close>.

  \<open>DecodeWvtt\<close> reads the eight bytes of the sample entry with a byte cursor over the
  payload (\<open>NewSliceReader\<close>, also declared elsewhere); a payload too short for them is an
  out-of-range read.

  When \<open>DecodeBox\<close> returns a box it has read the header of the box, so the reader it
  leaves is shorter than the one it got (lemma \<open>DecodeBox_consumes\<close>). The two loops
  test this before they go on, which bounds the number of their rounds; the other
  branch of the test is never taken.
\<close>

function DecodeBox :: "64 word \<Rightarrow> bytes \<Rightarrow> error + (Box \<times> bytes)"
  and DecodeWvtt :: "boxHeader \<Rightarrow> 64 word \<Rightarrow> bytes \<Rightarrow> error + (Box \<times> bytes)"
  and DecodeWvtt_loop :: "boxHeader \<Rightarrow> 64 word \<Rightarrow> Box \<Rightarrow> 64 word \<Rightarrow> bytes \<Rightarrow> error + Box"
  and DecodeVttc :: "boxHeader \<Rightarrow> 64 word \<Rightarrow> bytes \<Rightarrow> error + (Box \<times> bytes)"
  and DecodeContainerChildren ::
    "boxHeader \<Rightarrow> 64 word \<Rightarrow> 64 word \<Rightarrow> bytes \<Rightarrow> error + (Box list \<times> bytes)"
  and children_loop ::
    "64 word \<Rightarrow> Box list \<Rightarrow> 64 word \<Rightarrow> bytes \<Rightarrow> error + (Box list \<times> bytes)"
where
  "DecodeBox startPos r =
     (case decodeHeader r of
        Inl e \<Rightarrow> Inl e
      | Inr (hdr, r1) \<Rightarrow>
         (let remainingLength = unat (hdr_size hdr) - hdrlen hdr
          in if length r1 < remainingLength then Inl TruncatedInput
             else
               (case (if hdr_name hdr = ''wvtt''
                        then DecodeWvtt hdr startPos (take remainingLength r1)
                      else if hdr_name hdr = ''vttc''
                        then DecodeVttc hdr startPos (take remainingLength r1)
                      else (case leaf_decoders (hdr_name hdr) of
                              Some d \<Rightarrow> d hdr startPos (take remainingLength r1)
                            | None \<Rightarrow> DecodeUnknown hdr startPos (take remainingLength r1))) of
                  Inl e \<Rightarrow> Inl e
                | Inr (b, unread) \<Rightarrow> Inr (b, drop (remainingLength - length unread) r1))))"
| "DecodeWvtt hdr startPos r =
     (let data = ReadAll r
      in if slen data < 8 then Inl Panic
         else
           (let w = WvttBox None None None [] (be_word (take 2 (drop 6 (contents data))));
                remaining = drop 8 (contents data);
                pos = startPos + of_nat nrWvttBytesBeforeChildren
            in case DecodeWvtt_loop hdr startPos w pos remaining of
                 Inl e \<Rightarrow> Inl e
               | Inr w' \<Rightarrow> Inr (w', [])))"
| "DecodeWvtt_loop hdr startPos w pos restReader =
     (case DecodeBox pos restReader of
        Inl e \<Rightarrow> (if e = EOF then Inr w else Inl e)
      | Inr (box, restReader') \<Rightarrow>
         (let w' = WvttBox_AddChild w box;
              pos' = pos + Size box
          in if pos' = startPos + hdr_size hdr then Inr w'
             else if pos' > startPos + hdr_size hdr
               then Inl (MalformedContainer ''Bad size in wvtt'')
             else if length restReader' < length restReader
               then DecodeWvtt_loop hdr startPos w' pos' restReader'
             else Inl Panic))"
| "DecodeVttc hdr startPos r =
     (case DecodeContainerChildren hdr (startPos + 8) (startPos + hdr_size hdr) r of
        Inl e \<Rightarrow> Inl e
      | Inr (children, unread) \<Rightarrow>
          Inr (foldl VttcBox_AddChild (VttcBox None None None None None []) children, unread))"
| "DecodeContainerChildren hdr startPos endPos r = children_loop endPos [] startPos r"
| "children_loop endPos l pos r =
     (if pos = endPos then Inr (l, r)
      else
        (case DecodeBox pos r of
           Inl e \<Rightarrow>
             (if e = EOF then Inl (MalformedContainer ''end of stream inside the container'')
              else Inl e)
         | Inr (box, r') \<Rightarrow>
            (let pos' = pos + Size box
             in if pos' > endPos
                  then Inl (MalformedContainer ''children overrun the container'')
                else if length r' < length r
                  then children_loop endPos (l @ [box]) pos' r'
                else Inl Panic)))"
  by pat_completeness auto
termination
  by (relation "measure (\<lambda>x. case x of
      Inl (Inl (p, r)) \<Rightarrow> 4 * length r
    | Inl (Inr (Inl (h, p, r))) \<Rightarrow> 4 * length r + 3
    | Inl (Inr (Inr (h, s, w, p, r))) \<Rightarrow> 4 * length r + 1
    | Inr (Inl (h, p, r)) \<Rightarrow> 4 * length r + 3
    | Inr (Inr (Inl (h, s, e, r))) \<Rightarrow> 4 * length r + 2
    | Inr (Inr (Inr (e, l, p, r))) \<Rightarrow> 4 * length r + 1)")
     (auto simp: ReadAll_def contents_def decodeHeader_def Let_def split: if_splits)

subsection \<open>Trees of the wvtt family\<close>

text \<open>
  The trees that the constructors and \<open>AddChild\<close> of this file build: boxes of the
  eleven types \<open>wvtt, vttC, vlab, vtte, vttc, vsid, iden, ctim, sttg, payl, vtta\<close>, where
  the pointer fields of a container are what \<open>AddChild\<close> has set while its children
  were appended in order.
\<close>

fun built :: "Box \<Rightarrow> bool" where
  "built (WvttBox vttC vlab btrt children dri) \<longleftrightarrow>
     WvttBox vttC vlab btrt children dri
       = foldl WvttBox_AddChild (WvttBox None None None [] dri) children
     \<and> list_all built children"
| "built (VttcBox vsid iden ctim sttg payl children) \<longleftrightarrow>
     VttcBox vsid iden ctim sttg payl children
       = foldl VttcBox_AddChild (VttcBox None None None None None []) children
     \<and> list_all built children"
| "built (BtrtBox _) \<longleftrightarrow> False"
| "built (UnknownBox _ _) \<longleftrightarrow> False"
| "built _ \<longleftrightarrow> True"


text \<open>
  The running offset of a container loop that starts at offset \<open>pos\<close> stays within
  \<open>endPos\<close> after each of the children \<open>cs\<close>.
\<close>

definition within_end :: "64 word \<Rightarrow> Box list \<Rightarrow> 64 word \<Rightarrow> bool" where
  "within_end pos cs endPos \<longleftrightarrow>
     (\<forall>k. 0 < k \<and> k \<le> length cs \<longrightarrow> pos + sum_list (map Size (take k cs)) \<le> endPos)"

text \<open>A sample entry with one box of every type of the family, built with \<open>AddChild\<close>.\<close>

definition example_wvtt :: Box where
  "example_wvtt =
     foldl WvttBox_AddChild NewWvttBox
       [VttCBox ''WEBVTT'', VlabBox ''en'',
        foldl VttcBox_AddChild (VttcBox None None None None None [])
          [VsidBox 7, IdenBox ''c1'', CtimBox ''0'', SttgBox ''line:1'', PaylBox ''hi''],
        VtteBox, VttaBox ''x'']"

section \<open>Properties of CENC decryption\<close>

subsection \<open>Lengths and slices\<close>

lemma length_be_bytes: "length (be_bytes n w) = n"
  by (simp add: be_bytes_def)

lemma length_keystream: "length (keystream E key iv n) = 16 * n"
  by (induction n) (simp_all add: keystream_def length_be_bytes)

lemma length_xor_bytes: "length (xor_bytes xs ks) = min (length xs) (length ks)"
  by (simp add: xor_bytes_def)

lemma length_ctr_at: "length (ctr_at E key iv off xs) = length xs"
  by (simp add: ctr_at_def length_xor_bytes length_keystream)

lemma ctr_at_Nil: "ctr_at E key iv off [] = []"
  by (simp add: ctr_at_def xor_bytes_def)

lemma contents_mk_slice: "contents (mk_slice bs) = bs"
  by (simp add: contents_def mk_slice_def)

lemma go_slice_Inr:
  "go_slice s lo hi = Inr t \<Longrightarrow>
     lo \<le> hi \<and> hi \<le> cap s \<and> contents t = take (hi - lo) (drop lo (backing s))"
  by (auto simp: go_slice_def contents_def split: if_splits)

lemma go_slice_ok:
  "lo \<le> hi \<Longrightarrow> hi \<le> cap s \<Longrightarrow>
     go_slice s lo hi = Inr \<lparr>backing = drop lo (backing s), slen = hi - lo\<rparr>"
  by (simp add: go_slice_def)

text \<open>A \<open>uint32\<close> position that did not decrease when advanced did not wrap around.\<close>

lemma unat_step:
  fixes pos n :: "32 word"
  assumes "unat pos \<le> unat (pos + n)"
  shows "unat (pos + n) = unat pos + unat n"
  using assms by (simp add: word_le_nat_alt [symmetric] unat_plus_simple)

lemma unat_ucast_16_32: "unat (ucast (x :: 16 word) :: 32 word) = unat x"
  by transfer simp

subsection \<open>The subsample loop\<close>

text \<open>
  What the loop returns when it returns: the clear spans copied, each protected span
  combined with a keystream that starts at the IV, all taken from the backing array of
  the data slice; and the spans fit into the capacity of the slice.
\<close>

lemma subsample_loop_Inr:
  "subsample_loop E data key iv ss pos outData = Inr r \<Longrightarrow> unat pos \<le> cap data \<Longrightarrow>
     r = outData @ restarted_spans E key iv ss (drop (unat pos) (backing data))
     \<and> unat pos + subsample_total ss \<le> cap data
     \<and> length r = length outData + subsample_total ss"
proof (induction ss arbitrary: pos outData)
  case Nil
  then show ?case by (simp add: subsample_total_def)
next
  case (Cons s ss)
  let ?c = "ucast (BytesOfClearData s) :: 32 word"
  let ?p = "BytesOfProtectedData s"
  from Cons.prems obtain clr where
    clr: "go_slice data (unat pos) (unat (pos + ?c)) = Inr clr"
    by (auto simp: Let_def split: sum.splits)
  from Cons.prems clr obtain enc where
    enc: "go_slice data (unat (pos + ?c)) (unat (pos + ?c + ?p)) = Inr enc"
    by (auto simp: Let_def split: sum.splits)
  from Cons.prems clr enc obtain cryptOut where
    co: "DecryptSampleCTR E (contents enc) key iv = Inr cryptOut"
    and rest: "subsample_loop E data key iv ss (pos + ?c + ?p)
                 ((outData @ contents clr) @ cryptOut) = Inr r"
    by (auto simp: Let_def split: sum.splits)
  have uc: "unat ?c = unat (BytesOfClearData s)"
    by (rule unat_ucast_16_32)
  from go_slice_Inr [OF clr] have
    p1: "unat (pos + ?c) = unat pos + unat ?c"
    and cclr: "contents clr = take (unat (pos + ?c) - unat pos) (drop (unat pos) (backing data))"
    by (auto intro: unat_step)
  from go_slice_Inr [OF enc] have
    p2: "unat (pos + ?c + ?p) = unat (pos + ?c) + unat ?p"
    and cenc: "contents enc =
       take (unat (pos + ?c + ?p) - unat (pos + ?c)) (drop (unat (pos + ?c)) (backing data))"
    by (auto intro: unat_step)
  from co have cout: "cryptOut = ctr_at E key iv 0 (contents enc)"
    by (auto simp: DecryptSampleCTR_def split: if_splits)
  have "unat (pos + ?c + ?p) \<le> cap data"
    using go_slice_Inr [OF enc] by simp
  from Cons.IH [OF rest this] have ih:
    "r = ((outData @ contents clr) @ cryptOut)
          @ restarted_spans E key iv ss (drop (unat (pos + ?c + ?p)) (backing data))"
    "unat (pos + ?c + ?p) + subsample_total ss \<le> cap data"
    "length r = length ((outData @ contents clr) @ cryptOut) + subsample_total ss"
    by auto
  have b1: "unat pos + unat ?c \<le> length (backing data)"
    using go_slice_Inr [OF clr] p1 by (simp add: cap_def)
  have b2: "unat pos + unat ?c + unat ?p \<le> length (backing data)"
    using go_slice_Inr [OF enc] p1 p2 by (simp add: cap_def)
  have lenclr: "length (contents clr) = unat ?c"
    using cclr p1 b1 by simp
  have lenenc: "length (contents enc) = unat ?p"
    using cenc p1 p2 b2 by simp
  show ?case
    using ih cclr cenc cout p1 p2 uc lenclr lenenc
    by (simp add: Let_def subsample_total_def length_ctr_at add.commute add.left_commute)
qed

lemma subsample_loop_from_start:
  assumes "subsample_loop E data key iv ss 0 [] = Inr r"
  shows "r = restarted_spans E key iv ss (backing data)"
    and "length r = subsample_total ss"
    and "subsample_total ss \<le> cap data"
  using subsample_loop_Inr [OF assms] by auto

text \<open>
  The loop does return when key and IV have 16 bytes and the spans fit into the first
  \<open>n\<close> bytes of a slice with \<open>n < 2\<^sup>3\<^sup>2\<close>.
\<close>

lemma subsample_loop_ok:
  assumes "length key = 16" "length iv = 16"
    and "unat pos + subsample_total ss \<le> n" "n \<le> cap data" "n < 2 ^ 32"
  shows "\<exists>r. subsample_loop E data key iv ss pos outData = Inr r"
  using assms(3)
proof (induction ss arbitrary: pos outData)
  case Nil
  then show ?case by simp
next
  case (Cons s ss)
  let ?c = "ucast (BytesOfClearData s) :: 32 word"
  let ?p = "BytesOfProtectedData s"
  have uc: "unat ?c = unat (BytesOfClearData s)"
    by (rule unat_ucast_16_32)
  from Cons.prems have tot:
    "unat pos + unat ?c + unat ?p + subsample_total ss \<le> n"
    by (simp add: subsample_total_def uc)
  with assms(5) have "unat pos + unat ?c < 2 ^ 32" by simp
  then have p1: "unat (pos + ?c) = unat pos + unat ?c"
    by (simp add: unat_add_lem [THEN iffD1])
  from tot assms(5) have "unat (pos + ?c) + unat ?p < 2 ^ 32" by (simp add: p1)
  then have p2: "unat (pos + ?c + ?p) = unat (pos + ?c) + unat ?p"
    by (simp add: unat_add_lem [THEN iffD1])
  have s1: "go_slice data (unat pos) (unat (pos + ?c)) =
      Inr \<lparr>backing = drop (unat pos) (backing data), slen = unat (pos + ?c) - unat pos\<rparr>"
    using tot assms(4) p1 by (intro go_slice_ok) auto
  have s2: "go_slice data (unat (pos + ?c)) (unat (pos + ?c + ?p)) =
      Inr \<lparr>backing = drop (unat (pos + ?c)) (backing data),
           slen = unat (pos + ?c + ?p) - unat (pos + ?c)\<rparr>"
    using tot assms(4) p1 p2 by (intro go_slice_ok) auto
  from tot p1 p2 have "unat (pos + ?c + ?p) + subsample_total ss \<le> n" by simp
  from Cons.IH [OF this] show ?case
    using s1 s2 assms(1,2) by (simp add: Let_def DecryptSampleCTR_def)
qed

subsection \<open>decryptSample\<close>

lemma decryptSample_Inr:
  assumes "decryptSample E i samples key senc = Inr out"
  shows "unat i < length samples \<and> Sample out = Sample (samples ! unat i)
     \<and> DecodeTime out = DecodeTime (samples ! unat i)
     \<and> (\<exists>se. senc = Some se \<and> unat i < length (IVs se)
          \<and> decrypt_payload E i (Data (samples ! unat i)) key
                (normalize_iv (IVs se ! unat i)) (SubSamples se)
              = Inr (contents (Data out)))"
proof -
  from assms have i: "unat i < length samples"
    by (cases "length samples \<le> unat i") (simp_all add: decryptSample_def)
  from assms i obtain se where se: "senc = Some se"
    by (cases senc) (simp_all add: decryptSample_def)
  from assms i se have iv: "unat i < length (IVs se)"
    by (cases "length (IVs se) \<le> unat i") (simp_all add: decryptSample_def)
  from assms i se iv obtain outData where
    "decrypt_payload E i (Data (samples ! unat i)) key
        (normalize_iv (IVs se ! unat i)) (SubSamples se) = Inr outData"
    and "out = \<lparr>Sample = Sample (samples ! unat i),
                DecodeTime = DecodeTime (samples ! unat i), Data = mk_slice outData\<rparr>"
    by (cases "decrypt_payload E i (Data (samples ! unat i)) key
                 (normalize_iv (IVs se ! unat i)) (SubSamples se)")
       (simp_all add: decryptSample_def)
  with i se iv show ?thesis by (simp add: contents_mk_slice)
qed

lemma decryptSample_subsamples_Inr:
  assumes "decryptSample E i samples key (Some se) = Inr out" and "SubSamples se \<noteq> []"
  shows "subsample_loop E (Data (samples ! unat i)) key (normalize_iv (IVs se ! unat i))
           (SubSamples se ! unat i) 0 [] = Inr (contents (Data out))"
  using decryptSample_Inr [OF assms(1)] assms(2)
  by (auto simp: decrypt_payload_def split: if_splits)

text \<open>
  C7. For every valid input sample, decryption returns an output sample whose payload
  has exactly the length of the input payload and whose \<open>Sample\<close> fields and decode
  time are those of the input. Valid means: the sample and its IV exist, the key has 16
  bytes, the IV has 8 or 16 bytes, the payload is shorter than \<open>2\<^sup>3\<^sup>2\<close> bytes (sample
  sizes are 32-bit), and where subsample lists are present the list of the sample exists
  and its byte counts add up to the sample size.
\<close>

theorem decryptSample_preserves_length_and_metadata:
  assumes "unat i < length samples"
    and "unat i < length (IVs se)"
    and "length key = 16"
    and "length (IVs se ! unat i) = 8 \<or> length (IVs se ! unat i) = 16"
    and "slen (Data (samples ! unat i)) \<le> cap (Data (samples ! unat i))"
    and "slen (Data (samples ! unat i)) < 2 ^ 32"
    and "SubSamples se \<noteq> [] \<longrightarrow>
           unat i < length (SubSamples se) \<and>
           subsample_total (SubSamples se ! unat i) = slen (Data (samples ! unat i))"
  shows "\<exists>out. decryptSample E i samples key (Some se) = Inr out
     \<and> length (contents (Data out)) = length (contents (Data (samples ! unat i)))
     \<and> Sample out = Sample (samples ! unat i)
     \<and> DecodeTime out = DecodeTime (samples ! unat i)"
proof -
  let ?data = "Data (samples ! unat i)"
  let ?iv = "normalize_iv (IVs se ! unat i)"
  have iv16: "length ?iv = 16"
    using assms(4) by (auto simp: normalize_iv_def)
  have len: "length (contents ?data) = slen ?data"
    using assms(5) by (simp add: contents_def cap_def)
  show ?thesis
  proof (cases "SubSamples se = []")
    case True
    then show ?thesis
      using assms(1,2,3) iv16
      by (simp add: decryptSample_def decrypt_payload_def DecryptSampleCTR_def
                    contents_mk_slice length_ctr_at)
  next
    case False
    with assms(7) have idx: "unat i < length (SubSamples se)"
      and tot: "subsample_total (SubSamples se ! unat i) = slen ?data"
      by auto
    from tot have "unat (0 :: 32 word) + subsample_total (SubSamples se ! unat i) \<le> slen ?data"
      by simp
    from subsample_loop_ok [OF assms(3) iv16 this assms(5) assms(6)]
    obtain r where r: "subsample_loop E ?data key ?iv (SubSamples se ! unat i) 0 [] = Inr r"
      by blast
    from subsample_loop_from_start(2) [OF r]
    have "length r = subsample_total (SubSamples se ! unat i)" .
    with r tot len False idx assms(1,2) show ?thesis
      by (simp add: decryptSample_def decrypt_payload_def contents_mk_slice)
  qed
qed

theorem decryptSample_preserves_length_and_metadata_witness:
  "\<exists>out. decryptSample aes128 0
      [\<lparr>Sample = (42 :: nat), DecodeTime = 7, Data = mk_slice [1, 2, 3]\<rparr>]
      (replicate 16 0)
      (Some \<lparr>IVs = [replicate 8 0],
             SubSamples = [[\<lparr>BytesOfClearData = 1, BytesOfProtectedData = 2\<rparr>]]\<rparr>) = Inr out
     \<and> length (contents (Data out)) = 3 \<and> Sample out = 42 \<and> DecodeTime out = 7"
proof -
  let ?samples = "[\<lparr>Sample = (42 :: nat), DecodeTime = 7, Data = mk_slice [1, 2, 3]\<rparr>]"
  let ?se = "\<lparr>IVs = [replicate 8 0],
             SubSamples = [[\<lparr>BytesOfClearData = 1, BytesOfProtectedData = 2\<rparr>]]\<rparr>"
  have "\<exists>out. decryptSample aes128 0 ?samples (replicate 16 0) (Some ?se) = Inr out
     \<and> length (contents (Data out)) = length (contents (Data (?samples ! unat (0 :: 32 word))))
     \<and> Sample out = Sample (?samples ! unat (0 :: 32 word))
     \<and> DecodeTime out = DecodeTime (?samples ! unat (0 :: 32 word))"
    by (rule decryptSample_preserves_length_and_metadata)
       (simp_all add: subsample_total_def mk_slice_def cap_def)
  then show ?thesis by (simp add: contents_mk_slice numeral_3_eq_3)
qed

subsection \<open>The two paths of decryptSample\<close>

lemma decryptSample_subsample_path:
  assumes "unat i < length samples" "unat i < length (IVs se)" "unat i < length (SubSamples se)"
  shows "decryptSample E i samples key (Some se) =
     (case subsample_loop E (Data (samples ! unat i)) key (normalize_iv (IVs se ! unat i))
             (SubSamples se ! unat i) 0 [] of
        Inl e \<Rightarrow> Inl e
      | Inr outData \<Rightarrow>
          Inr \<lparr>Sample = Sample (samples ! unat i),
               DecodeTime = DecodeTime (samples ! unat i),
               Data = mk_slice outData\<rparr>)"
proof -
  from assms(3) have "length (SubSamples se) \<noteq> 0" by auto
  with assms show ?thesis
    by (simp add: decryptSample_def decrypt_payload_def)
qed

lemma decryptSample_whole_sample_path:
  assumes "unat i < length samples" "unat i < length (IVs se)" "SubSamples se = []"
  shows "decryptSample E i samples key (Some se) =
     (case DecryptSampleCTR E (contents (Data (samples ! unat i))) key
             (normalize_iv (IVs se ! unat i)) of
        Inl e \<Rightarrow> Inl e
      | Inr outData \<Rightarrow>
          Inr \<lparr>Sample = Sample (samples ! unat i),
               DecodeTime = DecodeTime (samples ! unat i),
               Data = mk_slice outData\<rparr>)"
  using assms by (simp add: decryptSample_def decrypt_payload_def)

text \<open>With a key and an IV of 16 bytes the loop can only fail by a slice out of range.\<close>

lemma subsample_loop_Inl_Panic:
  assumes "length key = 16" "length iv = 16"
  shows "subsample_loop E data key iv ss pos outData = Inl e \<Longrightarrow> e = Panic"
proof (induction ss arbitrary: pos outData)
  case Nil
  then show ?case by simp
next
  case (Cons s ss)
  let ?c = "ucast (BytesOfClearData s) :: 32 word"
  let ?p = "BytesOfProtectedData s"
  show ?case
  proof (cases "go_slice data (unat pos) (unat (pos + ?c))")
    case (Inl e1)
    then have "e1 = Panic" by (auto simp: go_slice_def split: if_splits)
    with Inl Cons.prems show ?thesis by (simp add: Let_def)
  next
    case clr: (Inr clr)
    show ?thesis
    proof (cases "go_slice data (unat (pos + ?c)) (unat (pos + ?c + ?p))")
      case (Inl e2)
      then have "e2 = Panic" by (auto simp: go_slice_def split: if_splits)
      with Inl clr Cons.prems show ?thesis by (simp add: Let_def)
    next
      case enc: (Inr enc)
      have "DecryptSampleCTR E (contents enc) key iv = Inr (ctr_at E key iv 0 (contents enc))"
        using assms by (simp add: DecryptSampleCTR_def)
      with clr enc Cons.prems have
        "subsample_loop E data key iv ss (pos + ?c + ?p)
           ((outData @ contents clr) @ ctr_at E key iv 0 (contents enc)) = Inl e"
        by (simp add: Let_def)
      then show ?thesis by (rule Cons.IH)
    qed
  qed
qed

lemma normalize_iv_length:
  "length (normalize_iv iv) = 16 \<longleftrightarrow> length iv = 8 \<or> length iv = 16"
  by (auto simp: normalize_iv_def)

text \<open>
  C2 (as the code has it). For a sample with a subsample list \<open>S\<close>, \<open>decryptSample\<close>
  never compares the sum of \<open>S[i].clear + S[i].protected\<close> with the size of the sample,
  and there is no error for a mismatch. With sample, IV and list present, a 16-byte key
  and an IV of 8 or 16 bytes:
  \<^item> every list whose sum is below \<open>2\<^sup>3\<^sup>2\<close> and at most the capacity of the data slice is
    accepted, and the payload returned has exactly that sum of bytes (fewer than the
    sample has when the sum is smaller than its size);
  \<^item> a list whose sum exceeds the capacity of the data slice stops with the run-time
    panic of a slice out of range.

  And whenever a sample is returned for an input with subsample lists, its payload has
  exactly the sum of bytes, which is at most the capacity of the data slice.
\<close>

theorem decryptSample_output_length_is_subsample_total:
  "(unat i < length samples \<and> unat i < length (IVs se) \<and> unat i < length (SubSamples se)
      \<and> length key = 16
      \<and> (length (IVs se ! unat i) = 8 \<or> length (IVs se ! unat i) = 16)
      \<and> subsample_total (SubSamples se ! unat i) \<le> cap (Data (samples ! unat i))
      \<and> subsample_total (SubSamples se ! unat i) < 2 ^ 32 \<longrightarrow>
    (\<exists>out. decryptSample E i samples key (Some se) = Inr out
       \<and> length (contents (Data out)) = subsample_total (SubSamples se ! unat i)))
   \<and> (unat i1 < length samples1 \<and> unat i1 < length (IVs se1)
      \<and> unat i1 < length (SubSamples se1) \<and> length key1 = 16
      \<and> (length (IVs se1 ! unat i1) = 8 \<or> length (IVs se1 ! unat i1) = 16)
      \<and> cap (Data (samples1 ! unat i1)) < subsample_total (SubSamples se1 ! unat i1) \<longrightarrow>
    decryptSample E i1 samples1 key1 (Some se1) = Inl Panic)
   \<and> (decryptSample E i2 samples2 key2 (Some se2) = Inr out2 \<and> SubSamples se2 \<noteq> [] \<longrightarrow>
    length (contents (Data out2)) = subsample_total (SubSamples se2 ! unat i2)
    \<and> subsample_total (SubSamples se2 ! unat i2) \<le> cap (Data (samples2 ! unat i2)))"
proof (intro conjI impI)
  assume a: "unat i < length samples \<and> unat i < length (IVs se)
      \<and> unat i < length (SubSamples se) \<and> length key = 16
      \<and> (length (IVs se ! unat i) = 8 \<or> length (IVs se ! unat i) = 16)
      \<and> subsample_total (SubSamples se ! unat i) \<le> cap (Data (samples ! unat i))
      \<and> subsample_total (SubSamples se ! unat i) < 2 ^ 32"
  let ?data = "Data (samples ! unat i)"
  let ?iv = "normalize_iv (IVs se ! unat i)"
  let ?ss = "SubSamples se ! unat i"
  from a have iv16: "length ?iv = 16" by (simp add: normalize_iv_length)
  from a have key16: "length key = 16" by simp
  have "unat (0 :: 32 word) + subsample_total ?ss \<le> subsample_total ?ss" by simp
  from subsample_loop_ok [OF key16 iv16 this] a
  obtain r where r: "subsample_loop E ?data key ?iv ?ss 0 [] = Inr r"
    by blast
  from subsample_loop_from_start(2) [OF r] have "length r = subsample_total ?ss" .
  with r a show "\<exists>out. decryptSample E i samples key (Some se) = Inr out
       \<and> length (contents (Data out)) = subsample_total ?ss"
    by (simp add: decryptSample_subsample_path contents_mk_slice)
next
  assume a: "unat i1 < length samples1 \<and> unat i1 < length (IVs se1)
      \<and> unat i1 < length (SubSamples se1) \<and> length key1 = 16
      \<and> (length (IVs se1 ! unat i1) = 8 \<or> length (IVs se1 ! unat i1) = 16)
      \<and> cap (Data (samples1 ! unat i1)) < subsample_total (SubSamples se1 ! unat i1)"
  let ?data = "Data (samples1 ! unat i1)"
  let ?iv = "normalize_iv (IVs se1 ! unat i1)"
  let ?ss = "SubSamples se1 ! unat i1"
  from a have iv16: "length ?iv = 16" by (simp add: normalize_iv_length)
  from a have key16: "length key1 = 16" by simp
  have "subsample_loop E ?data key1 ?iv ?ss 0 [] = Inl Panic"
  proof (cases "subsample_loop E ?data key1 ?iv ?ss 0 []")
    case (Inl e)
    with subsample_loop_Inl_Panic [OF key16 iv16] show ?thesis by blast
  next
    case (Inr r)
    from subsample_loop_from_start(3) [OF Inr] a show ?thesis by simp
  qed
  with a show "decryptSample E i1 samples1 key1 (Some se1) = Inl Panic"
    by (simp add: decryptSample_subsample_path)
next
  assume a: "decryptSample E i2 samples2 key2 (Some se2) = Inr out2 \<and> SubSamples se2 \<noteq> []"
  then have "subsample_loop E (Data (samples2 ! unat i2)) key2
      (normalize_iv (IVs se2 ! unat i2)) (SubSamples se2 ! unat i2) 0 []
        = Inr (contents (Data out2))"
    using decryptSample_subsamples_Inr by blast
  from subsample_loop_from_start(2,3) [OF this]
  show "length (contents (Data out2)) = subsample_total (SubSamples se2 ! unat i2)"
    and "subsample_total (SubSamples se2 ! unat i2) \<le> cap (Data (samples2 ! unat i2))"
    by simp_all
qed

text \<open>
  The theorem at a sample of four bytes: a list that describes two of them is accepted
  and gives a payload of two bytes; a list that describes five stops with a panic.
\<close>

theorem decryptSample_output_length_is_subsample_total_witness:
  "(\<exists>out. decryptSample aes128 0
        [\<lparr>Sample = (0 :: nat), DecodeTime = 0, Data = mk_slice [5, 6, 7, 8]\<rparr>]
        (replicate 16 0)
        (Some \<lparr>IVs = [replicate 16 0],
               SubSamples = [[\<lparr>BytesOfClearData = 1, BytesOfProtectedData = 1\<rparr>]]\<rparr>) = Inr out
      \<and> length (contents (Data out)) = 2)
   \<and> decryptSample aes128 0
        [\<lparr>Sample = (0 :: nat), DecodeTime = 0, Data = mk_slice [5, 6, 7, 8]\<rparr>]
        (replicate 16 0)
        (Some \<lparr>IVs = [replicate 16 0],
               SubSamples = [[\<lparr>BytesOfClearData = 2, BytesOfProtectedData = 3\<rparr>]]\<rparr>)
       = Inl Panic
   \<and> decryptSample aes128 0
        [\<lparr>Sample = (0 :: nat), DecodeTime = 0, Data = mk_slice [5, 6, 7, 8]\<rparr>]
        (replicate 16 0)
        (Some \<lparr>IVs = [replicate 16 0],
               SubSamples = [[\<lparr>BytesOfClearData = 2, BytesOfProtectedData = 0\<rparr>]]\<rparr>)
       = Inr \<lparr>Sample = 0, DecodeTime = 0, Data = mk_slice [5, 6]\<rparr>
   \<and> length (contents (Data \<lparr>Sample = (0 :: nat), DecodeTime = 0, Data = mk_slice [5, 6]\<rparr>))
       = subsample_total [\<lparr>BytesOfClearData = 2, BytesOfProtectedData = 0\<rparr>]
   \<and> subsample_total [\<lparr>BytesOfClearData = 2, BytesOfProtectedData = 0\<rparr>]
       \<le> cap (mk_slice [5, 6, 7, 8])"
proof -
  let ?samples = "[\<lparr>Sample = (0 :: nat), DecodeTime = 0, Data = mk_slice [5, 6, 7, 8]\<rparr>]"
  let ?key = "replicate 16 (0 :: byte)"
  let ?se = "\<lparr>IVs = [replicate 16 0],
               SubSamples = [[\<lparr>BytesOfClearData = 1, BytesOfProtectedData = 1\<rparr>]]\<rparr>"
  let ?se1 = "\<lparr>IVs = [replicate 16 0],
               SubSamples = [[\<lparr>BytesOfClearData = 2, BytesOfProtectedData = 3\<rparr>]]\<rparr>"
  let ?se2 = "\<lparr>IVs = [replicate 16 0],
               SubSamples = [[\<lparr>BytesOfClearData = 2, BytesOfProtectedData = 0\<rparr>]]\<rparr>"
  let ?out2 = "\<lparr>Sample = (0 :: nat), DecodeTime = 0, Data = mk_slice [5, 6]\<rparr>"
  note h = decryptSample_output_length_is_subsample_total
    [where E = aes128 and i = 0 and samples = ?samples and key = ?key and se = ?se
       and ?i1.0 = 0 and ?samples1.0 = ?samples and ?key1.0 = ?key and ?se1.0 = ?se1
       and ?i2.0 = 0 and ?samples2.0 = ?samples and ?key2.0 = ?key and ?se2.0 = ?se2
       and ?out2.0 = ?out2]
  have ret: "decryptSample aes128 0 ?samples ?key (Some ?se2) = Inr ?out2"
    by (simp add: decryptSample_def decrypt_payload_def normalize_iv_def go_slice_def
                  mk_slice_def cap_def contents_def DecryptSampleCTR_def ctr_at_Nil)
  have "\<exists>out. decryptSample aes128 0 ?samples ?key (Some ?se) = Inr out
      \<and> length (contents (Data out)) = subsample_total (SubSamples ?se ! unat (0 :: 32 word))"
    by (rule h [THEN conjunct1, THEN mp])
       (simp add: subsample_total_def mk_slice_def cap_def)
  moreover have "subsample_total (SubSamples ?se ! unat (0 :: 32 word)) = 2"
    by (simp add: subsample_total_def)
  ultimately have "\<exists>out. decryptSample aes128 0 ?samples ?key (Some ?se) = Inr out
      \<and> length (contents (Data out)) = 2"
    by simp
  moreover from h have "decryptSample aes128 0 ?samples ?key (Some ?se1) = Inl Panic"
    by (simp add: subsample_total_def mk_slice_def cap_def)
  moreover from h ret have
    "length (contents (Data ?out2))
       = subsample_total [\<lparr>BytesOfClearData = 2, BytesOfProtectedData = 0\<rparr>]
     \<and> subsample_total [\<lparr>BytesOfClearData = 2, BytesOfProtectedData = 0\<rparr>]
       \<le> cap (mk_slice [5, 6, 7, 8])"
    by simp
  ultimately show ?thesis using ret by blast
qed

text \<open>
  A sample of three bytes whose subsample list describes two bytes only is accepted
  and returned with a two-byte payload: the third byte is dropped without an error.
\<close>

theorem decryptSample_accepts_short_subsample_sum:
  "decryptSample aes128 0
      [\<lparr>Sample = (0 :: nat), DecodeTime = 0, Data = mk_slice [1, 2, 3]\<rparr>]
      (replicate 16 0)
      (Some \<lparr>IVs = [replicate 16 0],
             SubSamples = [[\<lparr>BytesOfClearData = 2, BytesOfProtectedData = 0\<rparr>]]\<rparr>)
   = Inr \<lparr>Sample = 0, DecodeTime = 0, Data = mk_slice [1, 2]\<rparr>"
  by (simp add: decryptSample_def decrypt_payload_def normalize_iv_def go_slice_def
                mk_slice_def cap_def contents_def DecryptSampleCTR_def ctr_at_Nil)
subsection \<open>The IV\<close>

lemma DecryptSampleCTR_Inr_iv:
  "DecryptSampleCTR E s key iv = Inr r \<Longrightarrow> length iv = 16"
  by (auto simp: DecryptSampleCTR_def split: if_splits)

lemma subsample_loop_Cons_Inr_iv:
  assumes "subsample_loop E data key iv (s # ss) pos outData = Inr r"
  shows "length iv = 16"
proof -
  from assms obtain enc cryptOut where
    "DecryptSampleCTR E (contents enc) key iv = Inr cryptOut"
    by (auto simp: Let_def split: sum.splits)
  then show ?thesis by (rule DecryptSampleCTR_Inr_iv)
qed

text \<open>
  What \<open>decryptSample\<close> returns for an input with subsample lists, when it returns: the
  clear spans copied and every protected span combined with the keystream that starts
  at the normalized IV.
\<close>

lemma decryptSample_restarts_keystream_per_span:
  assumes "decryptSample E i samples key (Some se) = Inr out"
    and "SubSamples se \<noteq> []"
  shows "contents (Data out) =
           restarted_spans E key (normalize_iv (IVs se ! unat i)) (SubSamples se ! unat i)
             (backing (Data (samples ! unat i)))"
  using subsample_loop_from_start(1) [OF decryptSample_subsamples_Inr [OF assms]] .

text \<open>
  C3 (as the code has it). An 8-byte IV \<open>I\<close> is right-padded with 8 zero bytes: decrypting
  with \<open>I\<close> gives what decrypting with the 16-byte IV \<open>I || 0x00*8\<close> gives. An IV of any
  other length, 16 bytes or not, goes unchanged to the counter-mode primitive: without
  subsample lists the result is that of \<open>DecryptSampleCTR\<close> on the whole payload with
  this IV, and with a subsample list the result is that of the loop run with this IV, a
  payload returned being the protected spans combined with the keystream of this IV.
  \<open>decryptSample\<close> itself never tests the length: without subsample lists and with a
  16-byte key, an IV that has neither 8 nor 16 bytes is rejected by the primitive with
  \<open>InvalidIVLength\<close>; a sample whose own subsample list is empty is returned, with an
  empty payload, whatever the IV and the key are; and an IV of neither 8 nor 16 bytes
  is accepted in that case only.
\<close>

theorem decryptSample_iv_handling:
  "(length (IVs se ! unat i) = 8 \<longrightarrow>
      decryptSample E i samples key (Some se) =
      decryptSample E i samples key
        (Some (se\<lparr>IVs := (IVs se)[unat i := IVs se ! unat i @ [0, 0, 0, 0, 0, 0, 0, 0]]\<rparr>)))
   \<and> (length (IVs se1 ! unat i1) \<noteq> 8
        \<and> unat i1 < length samples1 \<and> unat i1 < length (IVs se1) \<and> SubSamples se1 = [] \<longrightarrow>
      decryptSample E i1 samples1 key1 (Some se1) =
        (case DecryptSampleCTR E (contents (Data (samples1 ! unat i1))) key1
                (IVs se1 ! unat i1) of
           Inl e \<Rightarrow> Inl e
         | Inr outData \<Rightarrow>
             Inr \<lparr>Sample = Sample (samples1 ! unat i1),
                  DecodeTime = DecodeTime (samples1 ! unat i1),
                  Data = mk_slice outData\<rparr>))
   \<and> (length (IVs se1 ! unat i1) \<noteq> 8 \<and> length (IVs se1 ! unat i1) \<noteq> 16
        \<and> unat i1 < length samples1 \<and> unat i1 < length (IVs se1) \<and> SubSamples se1 = []
        \<and> length key1 = 16 \<longrightarrow>
      decryptSample E i1 samples1 key1 (Some se1) = Inl InvalidIVLength)
   \<and> (length (IVs se2 ! unat i2) \<noteq> 8
        \<and> unat i2 < length samples2 \<and> unat i2 < length (IVs se2)
        \<and> unat i2 < length (SubSamples se2) \<longrightarrow>
      decryptSample E i2 samples2 key2 (Some se2) =
        (case subsample_loop E (Data (samples2 ! unat i2)) key2 (IVs se2 ! unat i2)
                (SubSamples se2 ! unat i2) 0 [] of
           Inl e \<Rightarrow> Inl e
         | Inr outData \<Rightarrow>
             Inr \<lparr>Sample = Sample (samples2 ! unat i2),
                  DecodeTime = DecodeTime (samples2 ! unat i2),
                  Data = mk_slice outData\<rparr>))
   \<and> (length (IVs se2 ! unat i2) \<noteq> 8 \<and> SubSamples se2 \<noteq> []
        \<and> decryptSample E i2 samples2 key2 (Some se2) = Inr out2 \<longrightarrow>
      contents (Data out2) =
        restarted_spans E key2 (IVs se2 ! unat i2) (SubSamples se2 ! unat i2)
          (backing (Data (samples2 ! unat i2))))
   \<and> (unat i2 < length samples2 \<and> unat i2 < length (IVs se2)
        \<and> unat i2 < length (SubSamples se2) \<and> SubSamples se2 ! unat i2 = [] \<longrightarrow>
      decryptSample E i2 samples2 key2 (Some se2) =
        Inr \<lparr>Sample = Sample (samples2 ! unat i2),
             DecodeTime = DecodeTime (samples2 ! unat i2),
             Data = mk_slice []\<rparr>)
   \<and> (length (IVs se2 ! unat i2) \<noteq> 8 \<and> length (IVs se2 ! unat i2) \<noteq> 16
        \<and> decryptSample E i2 samples2 key2 (Some se2) = Inr out2 \<longrightarrow>
      SubSamples se2 \<noteq> [] \<and> SubSamples se2 ! unat i2 = [])"
proof (intro conjI impI)
  assume l8: "length (IVs se ! unat i) = 8"
  let ?se' = "se\<lparr>IVs := (IVs se)[unat i := IVs se ! unat i @ [0, 0, 0, 0, 0, 0, 0, 0]]\<rparr>"
  show "decryptSample E i samples key (Some se) = decryptSample E i samples key (Some ?se')"
  proof (cases "unat i < length (IVs se)")
    case True
    have "normalize_iv (IVs se ! unat i @ [0, 0, 0, 0, 0, 0, 0, 0])
            = normalize_iv (IVs se ! unat i)"
      using l8 by (simp add: normalize_iv_def)
    with True show ?thesis by (simp add: decryptSample_def)
  next
    case False
    then show ?thesis by (simp add: decryptSample_def)
  qed
next
  assume a: "length (IVs se1 ! unat i1) \<noteq> 8
        \<and> unat i1 < length samples1 \<and> unat i1 < length (IVs se1) \<and> SubSamples se1 = []"
  then have "normalize_iv (IVs se1 ! unat i1) = IVs se1 ! unat i1"
    by (simp add: normalize_iv_def)
  with a show "decryptSample E i1 samples1 key1 (Some se1) =
        (case DecryptSampleCTR E (contents (Data (samples1 ! unat i1))) key1
                (IVs se1 ! unat i1) of
           Inl e \<Rightarrow> Inl e
         | Inr outData \<Rightarrow>
             Inr \<lparr>Sample = Sample (samples1 ! unat i1),
                  DecodeTime = DecodeTime (samples1 ! unat i1),
                  Data = mk_slice outData\<rparr>)"
    by (simp add: decryptSample_whole_sample_path)
next
  assume a: "length (IVs se1 ! unat i1) \<noteq> 8 \<and> length (IVs se1 ! unat i1) \<noteq> 16
        \<and> unat i1 < length samples1 \<and> unat i1 < length (IVs se1) \<and> SubSamples se1 = []
        \<and> length key1 = 16"
  then have "length (normalize_iv (IVs se1 ! unat i1)) \<noteq> 16"
    by (simp add: normalize_iv_length)
  with a show "decryptSample E i1 samples1 key1 (Some se1) = Inl InvalidIVLength"
    by (simp add: decryptSample_whole_sample_path DecryptSampleCTR_def)
next
  assume a: "length (IVs se2 ! unat i2) \<noteq> 8
        \<and> unat i2 < length samples2 \<and> unat i2 < length (IVs se2)
        \<and> unat i2 < length (SubSamples se2)"
  then have "normalize_iv (IVs se2 ! unat i2) = IVs se2 ! unat i2"
    by (simp add: normalize_iv_def)
  with a show "decryptSample E i2 samples2 key2 (Some se2) =
        (case subsample_loop E (Data (samples2 ! unat i2)) key2 (IVs se2 ! unat i2)
                (SubSamples se2 ! unat i2) 0 [] of
           Inl e \<Rightarrow> Inl e
         | Inr outData \<Rightarrow>
             Inr \<lparr>Sample = Sample (samples2 ! unat i2),
                  DecodeTime = DecodeTime (samples2 ! unat i2),
                  Data = mk_slice outData\<rparr>)"
    by (simp add: decryptSample_subsample_path)
next
  assume a: "length (IVs se2 ! unat i2) \<noteq> 8 \<and> SubSamples se2 \<noteq> []
        \<and> decryptSample E i2 samples2 key2 (Some se2) = Inr out2"
  then have "normalize_iv (IVs se2 ! unat i2) = IVs se2 ! unat i2"
    by (simp add: normalize_iv_def)
  with a decryptSample_restarts_keystream_per_span [of E i2 samples2 key2 se2 out2]
  show "contents (Data out2) =
        restarted_spans E key2 (IVs se2 ! unat i2) (SubSamples se2 ! unat i2)
          (backing (Data (samples2 ! unat i2)))"
    by simp
next
  assume a: "unat i2 < length samples2 \<and> unat i2 < length (IVs se2)
        \<and> unat i2 < length (SubSamples se2) \<and> SubSamples se2 ! unat i2 = []"
  then show "decryptSample E i2 samples2 key2 (Some se2) =
        Inr \<lparr>Sample = Sample (samples2 ! unat i2),
             DecodeTime = DecodeTime (samples2 ! unat i2),
             Data = mk_slice []\<rparr>"
    by (simp add: decryptSample_subsample_path)
next
  assume a: "length (IVs se2 ! unat i2) \<noteq> 8 \<and> length (IVs se2 ! unat i2) \<noteq> 16
        \<and> decryptSample E i2 samples2 key2 (Some se2) = Inr out2"
  then have n16: "length (normalize_iv (IVs se2 ! unat i2)) \<noteq> 16"
    by (simp add: normalize_iv_length)
  from a have dp: "decrypt_payload E i2 (Data (samples2 ! unat i2)) key2
      (normalize_iv (IVs se2 ! unat i2)) (SubSamples se2) = Inr (contents (Data out2))"
    using decryptSample_Inr [of E i2 samples2 key2 "Some se2" out2] by simp
  show ne: "SubSamples se2 \<noteq> []"
  proof
    assume "SubSamples se2 = []"
    with dp have "DecryptSampleCTR E (contents (Data (samples2 ! unat i2))) key2
      (normalize_iv (IVs se2 ! unat i2)) = Inr (contents (Data out2))"
      by (simp add: decrypt_payload_def)
    from DecryptSampleCTR_Inr_iv [OF this] n16 show False by simp
  qed
  from dp ne have lp: "subsample_loop E (Data (samples2 ! unat i2)) key2
      (normalize_iv (IVs se2 ! unat i2)) (SubSamples se2 ! unat i2) 0 []
        = Inr (contents (Data out2))"
    by (auto simp: decrypt_payload_def split: if_splits)
  show "SubSamples se2 ! unat i2 = []"
  proof (cases "SubSamples se2 ! unat i2")
    case Nil
    then show ?thesis .
  next
    case (Cons s ss)
    with lp subsample_loop_Cons_Inr_iv n16 show ?thesis by metis
  qed
qed

text \<open>
  The theorem at a sample of one byte: an 8-byte IV against its padded form; a 3-byte
  IV without subsample lists (handed to the primitive, which rejects it); a 3-byte IV
  with an empty own subsample list (returned).
\<close>

theorem decryptSample_iv_handling_witness:
  "decryptSample aes128 0 [\<lparr>Sample = (0 :: nat), DecodeTime = 0, Data = mk_slice [9]\<rparr>]
      (replicate 16 0) (Some \<lparr>IVs = [[1, 2, 3, 4, 5, 6, 7, 8]], SubSamples = []\<rparr>)
   = decryptSample aes128 0 [\<lparr>Sample = (0 :: nat), DecodeTime = 0, Data = mk_slice [9]\<rparr>]
      (replicate 16 0)
      (Some \<lparr>IVs = [[1, 2, 3, 4, 5, 6, 7, 8, 0, 0, 0, 0, 0, 0, 0, 0]], SubSamples = []\<rparr>)
   \<and> decryptSample aes128 0 [\<lparr>Sample = (0 :: nat), DecodeTime = 0, Data = mk_slice [9]\<rparr>]
        (replicate 16 0) (Some \<lparr>IVs = [[1, 2, 3]], SubSamples = []\<rparr>)
      = (case DecryptSampleCTR aes128 [9] (replicate 16 0) [1, 2, 3] of
           Inl e \<Rightarrow> Inl e
         | Inr outData \<Rightarrow> Inr \<lparr>Sample = 0, DecodeTime = 0, Data = mk_slice outData\<rparr>)
   \<and> decryptSample aes128 0 [\<lparr>Sample = (0 :: nat), DecodeTime = 0, Data = mk_slice [9]\<rparr>]
        (replicate 16 0) (Some \<lparr>IVs = [[1, 2, 3]], SubSamples = []\<rparr>) = Inl InvalidIVLength
   \<and> decryptSample aes128 0 [\<lparr>Sample = (0 :: nat), DecodeTime = 0, Data = mk_slice [9]\<rparr>]
        (replicate 16 0) (Some \<lparr>IVs = [[1, 2, 3]], SubSamples = [[]]\<rparr>)
      = (case subsample_loop aes128 (mk_slice [9]) (replicate 16 0) [1, 2, 3] [] 0 [] of
           Inl e \<Rightarrow> Inl e
         | Inr outData \<Rightarrow> Inr \<lparr>Sample = 0, DecodeTime = 0, Data = mk_slice outData\<rparr>)
   \<and> contents (Data \<lparr>Sample = (0 :: nat), DecodeTime = 0, Data = mk_slice []\<rparr>)
      = restarted_spans aes128 (replicate 16 0) [1, 2, 3] [] (backing (mk_slice [9]))
   \<and> decryptSample aes128 0 [\<lparr>Sample = (0 :: nat), DecodeTime = 0, Data = mk_slice [9]\<rparr>]
        (replicate 16 0) (Some \<lparr>IVs = [[1, 2, 3]], SubSamples = [[]]\<rparr>)
      = Inr \<lparr>Sample = 0, DecodeTime = 0, Data = mk_slice []\<rparr>
   \<and> SubSamples \<lparr>IVs = [[1, 2, 3]], SubSamples = [[]]\<rparr> \<noteq> []
   \<and> SubSamples \<lparr>IVs = [[1, 2, 3]], SubSamples = [[]]\<rparr> ! unat (0 :: 32 word) = []"
proof -
  let ?samples = "[\<lparr>Sample = (0 :: nat), DecodeTime = 0, Data = mk_slice [9]\<rparr>]"
  let ?key = "replicate 16 (0 :: byte)"
  let ?se = "\<lparr>IVs = [[1, 2, 3, 4, 5, 6, 7, 8]], SubSamples = []\<rparr>"
  let ?se1 = "\<lparr>IVs = [[1, 2, 3]], SubSamples = []\<rparr>"
  let ?se2 = "\<lparr>IVs = [[1, 2, 3]], SubSamples = [[]]\<rparr>"
  let ?out2 = "\<lparr>Sample = (0 :: nat), DecodeTime = 0, Data = mk_slice []\<rparr>"
  note h = decryptSample_iv_handling
    [where E = aes128 and i = 0 and samples = ?samples and key = ?key and se = ?se
       and ?i1.0 = 0 and ?samples1.0 = ?samples and ?key1.0 = ?key and ?se1.0 = ?se1
       and ?i2.0 = 0 and ?samples2.0 = ?samples and ?key2.0 = ?key and ?se2.0 = ?se2
       and ?out2.0 = ?out2]
  have c1: "decryptSample aes128 0 ?samples ?key (Some ?se)
      = decryptSample aes128 0 ?samples ?key
          (Some \<lparr>IVs = [[1, 2, 3, 4, 5, 6, 7, 8, 0, 0, 0, 0, 0, 0, 0, 0]], SubSamples = []\<rparr>)"
    using h [THEN conjunct1] by simp
  have c2: "decryptSample aes128 0 ?samples ?key (Some ?se1)
      = (case DecryptSampleCTR aes128 [9] ?key [1, 2, 3] of
           Inl e \<Rightarrow> Inl e
         | Inr outData \<Rightarrow> Inr \<lparr>Sample = 0, DecodeTime = 0, Data = mk_slice outData\<rparr>)"
    using h [THEN conjunct2, THEN conjunct1]
    by (simp add: contents_mk_slice cong: sum.case_cong)
  have c3: "decryptSample aes128 0 ?samples ?key (Some ?se1) = Inl InvalidIVLength"
    using h [THEN conjunct2, THEN conjunct2, THEN conjunct1] by simp
  have c4: "decryptSample aes128 0 ?samples ?key (Some ?se2)
      = (case subsample_loop aes128 (mk_slice [9]) ?key [1, 2, 3] [] 0 [] of
           Inl e \<Rightarrow> Inl e
         | Inr outData \<Rightarrow> Inr \<lparr>Sample = 0, DecodeTime = 0, Data = mk_slice outData\<rparr>)"
    using h [THEN conjunct2, THEN conjunct2, THEN conjunct2, THEN conjunct1]
    by (simp cong: sum.case_cong)
  have c6: "decryptSample aes128 0 ?samples ?key (Some ?se2) = Inr ?out2"
    using h [THEN conjunct2, THEN conjunct2, THEN conjunct2, THEN conjunct2, THEN conjunct2,
             THEN conjunct1]
    by simp
  have c5: "contents (Data ?out2)
      = restarted_spans aes128 ?key [1, 2, 3] [] (backing (mk_slice [9]))"
    using h [THEN conjunct2, THEN conjunct2, THEN conjunct2, THEN conjunct2, THEN conjunct1]
      c6
    by simp
  have c7: "SubSamples ?se2 \<noteq> [] \<and> SubSamples ?se2 ! unat (0 :: 32 word) = []"
    using h [THEN conjunct2, THEN conjunct2, THEN conjunct2, THEN conjunct2, THEN conjunct2,
             THEN conjunct2]
      c6
    by simp
  from c1 c2 c3 c4 c5 c6 c7 show ?thesis by blast
qed

text \<open>
  A sample with an empty subsample list and a 3-byte IV is returned without an error.
\<close>

theorem decryptSample_accepts_three_byte_iv:
  "decryptSample aes128 0
      [\<lparr>Sample = (0 :: nat), DecodeTime = 0, Data = mk_slice []\<rparr>]
      (replicate 16 0)
      (Some \<lparr>IVs = [[1, 2, 3]], SubSamples = [[]]\<rparr>)
   = Inr \<lparr>Sample = 0, DecodeTime = 0, Data = mk_slice []\<rparr>"
  by (simp add: decryptSample_def decrypt_payload_def normalize_iv_def)
subsection \<open>AES-128 on concrete blocks\<close>

text \<open>The cipher example of FIPS-197, Appendix B and C.1 (key \<open>00 01 .. 0f\<close>).\<close>

lemma aes128_fips197_example:
  "aes128_encrypt
     [0x00, 0x01, 0x02, 0x03, 0x04, 0x05, 0x06, 0x07, 0x08, 0x09, 0x0a, 0x0b, 0x0c, 0x0d, 0x0e, 0x0f]
     [0x00, 0x11, 0x22, 0x33, 0x44, 0x55, 0x66, 0x77, 0x88, 0x99, 0xaa, 0xbb, 0xcc, 0xdd, 0xee, 0xff]
   = [0x69, 0xc4, 0xe0, 0xd8, 0x6a, 0x7b, 0x04, 0x30, 0xd8, 0xcd, 0xb7, 0x80, 0x70, 0xb4, 0xc5, 0x5a]"
  by code_simp

text \<open>The keystream of the all-zero key and IV: its first block.\<close>

lemma aes128_zero_block:
  "aes128_encrypt (replicate 16 0) (replicate 16 0) =
     [0x66, 0xe9, 0x4b, 0xd4, 0xef, 0x8a, 0x2c, 0x3b, 0x88, 0x4c, 0xfa, 0x59, 0xca, 0x34, 0x2b, 0x2e]"
  by code_simp

lemma be_bytes_zero: "be_bytes 16 (0 :: 128 word) = replicate 16 0"
  by code_simp

lemma be_word_zero: "(be_word (replicate 16 0) :: 128 word) = 0"
  by code_simp

lemma be_word_val: "(be_word [0x66, 0xe9, 0x4b, 0xd4, 0xef, 0x8a, 0x2c, 0x3b, 0x88, 0x4c, 0xfa, 0x59, 0xca, 0x34, 0x2b, 0x2e] :: 128 word) = 0x66e94bd4ef8a2c3b884cfa59ca342b2e"
  by code_simp

lemma be_bytes_val: "be_bytes 16 (0x66e94bd4ef8a2c3b884cfa59ca342b2e :: 128 word) = [0x66, 0xe9, 0x4b, 0xd4, 0xef, 0x8a, 0x2c, 0x3b, 0x88, 0x4c, 0xfa, 0x59, 0xca, 0x34, 0x2b, 0x2e]"
  by code_simp

lemma aes128_keystream_zero:
  "keystream aes128 (replicate 16 0) (replicate 16 0) (Suc 0) =
     [0x66, 0xe9, 0x4b, 0xd4, 0xef, 0x8a, 0x2c, 0x3b, 0x88, 0x4c, 0xfa, 0x59, 0xca, 0x34, 0x2b, 0x2e]"
  by (simp add: keystream_def aes128_def be_word_zero be_bytes_zero aes128_zero_block
        be_word_val be_bytes_val)

lemma ctr_at_zero_byte0:
  "ctr_at aes128 (replicate 16 0) (replicate 16 0) 0 [0] = [0x66]"
  by (simp add: ctr_at_def aes128_keystream_zero xor_bytes_def)

lemma ctr_at_zero_byte1:
  "ctr_at aes128 (replicate 16 0) (replicate 16 0) (Suc 0) [0] = [0xe9]"
  by (simp add: ctr_at_def aes128_keystream_zero xor_bytes_def)


subsection \<open>The keystream across subsamples\<close>

text \<open>
  C1. For a sample with a subsample list the counter-mode keystream is to run on across
  the protected spans of the sample: decrypting them in the clear/protected
  interleaving order is to equal one counter-mode decryption, seeded once from the
  normalized IV, of their concatenation (\<open>continuous_spans\<close>). \<open>decryptSample\<close> does not do
  this. It calls \<open>DecryptSampleCTR\<close> once for every protected span with the same IV, so
  the keystream starts again at every span (lemma
  \<open>decryptSample_restarts_keystream_per_span\<close>). At a sample of two protected spans of
  one byte each, with all-zero key, IV and data, the code combines both bytes with the
  first keystream byte \<open>0x66\<close> of AES-128 and returns \<open>66 66\<close>, where the continuous
  keystream gives \<open>66 e9\<close>.
\<close>

theorem decryptSample_restarts_keystream_counterexample:
  "decryptSample aes128 0
      [\<lparr>Sample = (0 :: nat), DecodeTime = 0, Data = mk_slice [0, 0]\<rparr>]
      (replicate 16 0)
      (Some \<lparr>IVs = [replicate 16 0],
             SubSamples = [[\<lparr>BytesOfClearData = 0, BytesOfProtectedData = 1\<rparr>,
                            \<lparr>BytesOfClearData = 0, BytesOfProtectedData = 1\<rparr>]]\<rparr>)
     = Inr \<lparr>Sample = 0, DecodeTime = 0, Data = mk_slice [0x66, 0x66]\<rparr>
   \<and> continuous_spans aes128 (replicate 16 0) (normalize_iv (replicate 16 0))
        [\<lparr>BytesOfClearData = 0, BytesOfProtectedData = 1\<rparr>,
         \<lparr>BytesOfClearData = 0, BytesOfProtectedData = 1\<rparr>] [0, 0] 0
     = [0x66, 0xe9]"
  by (simp add: decryptSample_def decrypt_payload_def normalize_iv_def go_slice_def
                mk_slice_def cap_def contents_def DecryptSampleCTR_def
                ctr_at_zero_byte0 ctr_at_zero_byte1)
section \<open>Properties of the wvtt boxes\<close>

subsection \<open>Bytes, strings and headers\<close>

declare DecodeBox.simps [simp del] DecodeWvtt.simps [simp del] DecodeWvtt_loop.simps [simp del]
  DecodeVttc.simps [simp del] DecodeContainerChildren.simps [simp del] children_loop.simps [simp del]

lemma string_of_bytes_of_string: "string_of_bytes (bytes_of_string s) = s"
proof -
  have "char_of (unat (of_nat (of_char c) :: 8 word)) = c" for c :: char
  proof -
    have "(of_char c :: nat) < 256"
      by (rule nat_of_char_less_256)
    then have "unat (of_nat (of_char c) :: 8 word) = of_char c"
      by (simp add: unat_of_nat)
    then show ?thesis by simp
  qed
  then show ?thesis
    by (simp add: string_of_bytes_def bytes_of_string_def comp_def map_idI)
qed

lemma length_bytes_of_string: "length (bytes_of_string s) = length s"
  by (simp add: bytes_of_string_def)

lemma length_string_of_bytes: "length (string_of_bytes s) = length s"
  by (simp add: string_of_bytes_def)

lemma be_bytes_4: "be_bytes 4 w = [ucast (drop_bit 24 w), ucast (drop_bit 16 w), ucast (drop_bit 8 w), ucast w]"
  by (simp add: be_bytes_def upt_rec numeral_eq_Suc)

lemma be_bytes_2: "be_bytes 2 w = [ucast (drop_bit 8 w), ucast w]"
  by (simp add: be_bytes_def upt_rec numeral_eq_Suc)

lemma be_word_be_bytes_32: "(be_word (be_bytes 4 (w :: 32 word)) :: 32 word) = w"
  unfolding be_bytes_4 be_word_def
  apply simp
  apply (rule bit_word_eqI)
  subgoal for n
    by (cases "n < 8"; cases "n < 16"; cases "n < 24")
       (auto simp: bit_simps not_less)
  done

lemma be_word_be_bytes_16: "(be_word (be_bytes 2 (w :: 16 word)) :: 16 word) = w"
  unfolding be_bytes_2 be_word_def
  apply simp
  apply (rule bit_word_eqI)
  subgoal for n
    by (cases "n < 8"; cases "n < 16"; cases "n < 24")
       (auto simp: bit_simps not_less)
  done

lemma ucast_32_64: 
  fixes sz :: "64 word"
  assumes "sz < 2 ^ 32"
  shows "(ucast (ucast sz :: 32 word) :: 64 word) = sz"
proof -
  have "unat sz < 2 ^ 32" using assms by (simp add: word_less_nat_alt)
  then show ?thesis
    by (simp add: word_unat_eq_iff unsigned_ucast_eq unsigned_take_bit_eq take_bit_nat_eq_self)
qed

lemma EncodeHeader_compact:
  "sz < 2 ^ 32 \<Longrightarrow> EncodeHeader sz tp = be_bytes 4 (ucast sz :: 32 word) @ bytes_of_string tp"
  by (simp add: EncodeHeader_def)

lemma length_EncodeHeader:
  "sz < 2 ^ 32 \<Longrightarrow> length tp = 4 \<Longrightarrow> length (EncodeHeader sz tp) = 8"
  by (simp add: EncodeHeader_def length_bytes_of_string length_be_bytes)

lemma decodeHeader_EncodeHeader:
  fixes sz :: "64 word"
  assumes "sz < 2 ^ 32" "sz \<noteq> 0" "sz \<noteq> 1" "length tp = 4"
  shows "decodeHeader (EncodeHeader sz tp @ rest) =
           Inr (\<lparr>hdr_name = tp, hdr_size = sz, hdrlen = 8\<rparr>, rest)"
proof -
  let ?s32 = "ucast sz :: 32 word"
  have cast_id: "(ucast ?s32 :: 64 word) = sz" using assms(1) by (rule ucast_32_64)
  have n0: "?s32 \<noteq> 0" using cast_id assms(2) by auto
  have n1: "?s32 \<noteq> 1" using cast_id assms(3) by auto
  have enc: "EncodeHeader sz tp @ rest = be_bytes 4 ?s32 @ bytes_of_string tp @ rest"
    using assms(1) by (simp add: EncodeHeader_def)
  have t4: "take 4 (be_bytes 4 ?s32 @ bytes_of_string tp @ rest) = be_bytes 4 ?s32"
    by (simp add: length_be_bytes)
  have d4: "take 4 (drop 4 (be_bytes 4 ?s32 @ bytes_of_string tp @ rest)) = bytes_of_string tp"
    using assms(4) by (simp add: length_bytes_of_string length_be_bytes)
  have d8: "drop 8 (be_bytes 4 ?s32 @ bytes_of_string tp @ rest) = rest"
    using assms(4) by (simp add: length_bytes_of_string length_be_bytes)
  have len: "\<not> length (be_bytes 4 ?s32 @ bytes_of_string tp @ rest) < 8"
    using assms(4) by (simp add: length_bytes_of_string length_be_bytes)
  have ne: "be_bytes 4 ?s32 @ bytes_of_string tp @ rest \<noteq> []"
    using len by auto
  show ?thesis
    unfolding enc decodeHeader_def Let_def t4 d4 d8
    using len ne n0 n1 cast_id
    by (simp add: be_word_be_bytes_32 string_of_bytes_of_string)
qed

lemma sum_sizes_eq: "sum_sizes start sizes = start + sum_list sizes"
  unfolding sum_sizes_def
  by (induction sizes arbitrary: start) (simp_all add: add.assoc)

lemma contents_ReadAll: "contents (ReadAll r) = r"
  by (simp add: contents_def ReadAll_def)

lemma slen_ReadAll: "slen (ReadAll r) = length r"
  by (simp add: ReadAll_def)



text \<open>The dispatcher on a box with a compact header whose type is not a container.\<close>

lemma DecodeBox_compact_leaf:
  fixes sz :: "64 word"
  assumes "sz < 2 ^ 32" "sz \<noteq> 0" "sz \<noteq> 1" "length tp = 4"
    and "tp \<noteq> ''wvtt''" "tp \<noteq> ''vttc''"
    and "leaf_decoders tp = Some d"
    and "unat sz - 8 \<le> length rest"
  shows "DecodeBox startPos (EncodeHeader sz tp @ rest) =
     (case d \<lparr>hdr_name = tp, hdr_size = sz, hdrlen = 8\<rparr> startPos (take (unat sz - 8) rest) of
        Inl e \<Rightarrow> Inl e
      | Inr (b, unread) \<Rightarrow> Inr (b, drop (unat sz - 8 - length unread) rest))"
  using assms(5-8)
  by (simp add: DecodeBox.simps decodeHeader_EncodeHeader [OF assms(1-4)] Let_def
           split: sum.split prod.split)

subsection \<open>Empty leaves\<close>















subsection \<open>The source identifier\<close>

lemma cap_ReadAll: "cap (ReadAll r) = max 512 (length r)"
  by (simp add: cap_def ReadAll_def)

lemma take4_ReadAll: "take 4 (backing (ReadAll r)) = take 4 (r @ replicate 4 0)"
proof (cases "4 \<le> length r")
  case True
  then show ?thesis by (simp add: ReadAll_def)
next
  case False
  then have "length r < 4" by simp
  then have "512 - length r = (4 - length r) + 508" by simp
  then have "replicate (512 - length r) (0 :: byte) = replicate (4 - length r) 0 @ replicate 508 0"
    by (simp only: replicate_add)
  with False show ?thesis by (simp add: ReadAll_def)
qed

lemma DecodeVsid_value:
  "DecodeVsid hdr startPos r = Inr (VsidBox (be_word (take 4 (r @ replicate 4 0))), [])"
  by (simp add: DecodeVsid_def go_slice_def cap_ReadAll contents_def take4_ReadAll)

text \<open>
  C9 (as the code has it). \<open>DecodeVsid\<close> reads \<open>data[0:4]\<close> without looking at the length
  of the payload. A slice expression is checked against the capacity of the slice
  (\<open>d[0:4]\<close> is out of range exactly when the capacity of \<open>d\<close> is below 4), and the
  slice that \<open>ioutil.ReadAll\<close> returns has a zero-filled capacity of at least 512
  bytes. So the expression is in range for every payload, also for one of fewer than 4
  bytes: \<open>DecodeVsid\<close> always returns a box, whose \<open>SourceID\<close> is the big-endian value of
  the first four bytes of the payload followed by zeros.
\<close>

theorem DecodeVsid_reads_zero_padded_payload:
  "DecodeVsid hdr startPos r = Inr (VsidBox (be_word (take 4 (r @ replicate 4 0))), [])
   \<and> go_slice (ReadAll r) 0 4 = Inr \<lparr>backing = backing (ReadAll r), slen = 4\<rparr>
   \<and> cap (ReadAll r) = max 512 (length r)
   \<and> (go_slice d 0 4 = Inl Panic) = (cap d < 4)"
  by (auto simp: DecodeVsid_def go_slice_def cap_ReadAll contents_def take4_ReadAll)

text \<open>
  A payload of two bytes: the access is in range and the box is returned, so the
  claim that the access is out of range for every payload shorter than 4 bytes does
  not hold.
\<close>

theorem DecodeVsid_short_payload_in_range:
  "DecodeVsid \<lparr>hdr_name = ''vsid'', hdr_size = 10, hdrlen = 8\<rparr> 0 [1, 2]
     = Inr (VsidBox 0x01020000, [])"
  by code_simp

subsection \<open>A vtte box with a payload\<close>

lemma EncodeHeader_inj_size:
  fixes a b :: "64 word"
  assumes "a < 2 ^ 32" "b < 2 ^ 32" "EncodeHeader a t = EncodeHeader b t"
  shows "a = b"
proof -
  from assms have "be_bytes 4 (ucast a :: 32 word) = be_bytes 4 (ucast b :: 32 word)"
    by (simp add: EncodeHeader_def)
  then have "(be_word (be_bytes 4 (ucast a :: 32 word)) :: 32 word)
      = be_word (be_bytes 4 (ucast b :: 32 word))" by simp
  then have "(ucast a :: 32 word) = ucast b" by (simp add: be_word_be_bytes_32)
  then have "(ucast (ucast a :: 32 word) :: 64 word) = ucast (ucast b :: 32 word)" by simp
  with assms(1,2) show ?thesis by (simp add: ucast_32_64)
qed

lemma EncodeHeader_12_vtte:
  "EncodeHeader 12 ''vtte'' = [0, 0, 0, 12, 0x76, 0x74, 0x74, 0x65]"
  by (simp add: EncodeHeader_def be_bytes_4 bytes_of_string_def)

lemma EncodeHeader_8_vtte:
  "EncodeHeader 8 ''vtte'' = [0, 0, 0, 8, 0x76, 0x74, 0x74, 0x65]"
  by (simp add: EncodeHeader_def be_bytes_4 bytes_of_string_def)

text \<open>
  C10. A \<open>vtte\<close> box whose declared size \<open>n\<close> is larger than a header (and fits the
  compact header) has a payload of \<open>n - 8\<close> bytes. \<open>DecodeVtte\<close> returns the empty box
  without reading any of them: they are all left in its reader, and the dispatcher
  leaves them in the source. The box has the size of a header and is encoded as the
  \<open>boxHeaderSize\<close> bytes of a header of size 8, which is not the input: the payload is
  dropped and decoding then encoding does not give the bytes back.
\<close>

theorem DecodeVtte_drops_payload:
  fixes n :: "64 word"
  assumes "8 < n" "n < 2 ^ 32" "length payload = unat n - 8"
  shows "DecodeVtte hdr startPos payload = Inr (VtteBox, payload)
     \<and> DecodeBox startPos (EncodeHeader n ''vtte'' @ payload @ rest) = Inr (VtteBox, payload @ rest)
     \<and> Size VtteBox = of_nat boxHeaderSize
     \<and> Encode VtteBox = EncodeHeader 8 ''vtte''
     \<and> length (Encode VtteBox) = boxHeaderSize
     \<and> length (EncodeHeader n ''vtte'' @ payload) = unat n
     \<and> Encode VtteBox \<noteq> EncodeHeader n ''vtte'' @ payload"
proof -
  have n0: "n \<noteq> 0" "n \<noteq> 1" using assms(1) by auto
  have un: "8 < unat n" using assms(1) by (simp add: word_less_nat_alt)
  have "DecodeBox startPos (EncodeHeader n ''vtte'' @ payload @ rest) =
     (case DecodeVtte \<lparr>hdr_name = ''vtte'', hdr_size = n, hdrlen = 8\<rparr> startPos
             (take (unat n - 8) (payload @ rest)) of
        Inl e \<Rightarrow> Inl e
      | Inr (b, unread) \<Rightarrow> Inr (b, drop (unat n - 8 - length unread) (payload @ rest)))"
    using assms(3)
    by (intro DecodeBox_compact_leaf [OF assms(2) n0])
       (simp_all add: leaf_decoders_def)
  then have dec: "DecodeBox startPos (EncodeHeader n ''vtte'' @ payload @ rest)
       = Inr (VtteBox, payload @ rest)"
    using assms(3) by (simp add: DecodeVtte_def)
  have len: "length (EncodeHeader n ''vtte'' @ payload) = unat n"
    using assms(2,3) un by (simp add: length_EncodeHeader)
  have "length (Encode VtteBox) = 8"
    by (simp add: boxHeaderSize_def length_EncodeHeader)
  with len un have ne: "Encode VtteBox \<noteq> EncodeHeader n ''vtte'' @ payload"
    by (metis nat_neq_iff)
  show ?thesis
    using dec len ne
    by (simp add: DecodeVtte_def boxHeaderSize_def length_EncodeHeader)
qed

theorem DecodeVtte_drops_payload_witness:
  "DecodeVtte \<lparr>hdr_name = ''vtte'', hdr_size = 12, hdrlen = 8\<rparr> 0 [1, 2, 3, 4]
      = Inr (VtteBox, [1, 2, 3, 4])
   \<and> DecodeBox 0 [0, 0, 0, 12, 0x76, 0x74, 0x74, 0x65, 1, 2, 3, 4] = Inr (VtteBox, [1, 2, 3, 4])
   \<and> Size VtteBox = 8
   \<and> Encode VtteBox = [0, 0, 0, 8, 0x76, 0x74, 0x74, 0x65]
   \<and> length (Encode VtteBox) = 8
   \<and> Encode VtteBox \<noteq> [0, 0, 0, 12, 0x76, 0x74, 0x74, 0x65, 1, 2, 3, 4]"
  using DecodeVtte_drops_payload
    [of 12 "[1, 2, 3, 4]" "\<lparr>hdr_name = ''vtte'', hdr_size = 12, hdrlen = 8\<rparr>" 0 "[]"]
  by (simp add: EncodeHeader_12_vtte EncodeHeader_8_vtte boxHeaderSize_def)
subsection \<open>The size of a container\<close>

lemma sum_sizes_append: "sum_sizes start (xs @ [x]) = sum_sizes start xs + x"
  by (simp add: sum_sizes_def)

lemma WvttBox_AddChild_Children:
  "Children (WvttBox_AddChild (WvttBox vttC vlab btrt children dri) child) = children @ [child]"
  by (cases child) simp_all

lemma WvttBox_AddChild_is_WvttBox:
  "\<exists>vttC' vlab' btrt'.
     WvttBox_AddChild (WvttBox vttC vlab btrt children dri) child
       = WvttBox vttC' vlab' btrt' (children @ [child]) dri"
  by (cases child) simp_all

lemma VttcBox_AddChild_is_VttcBox:
  "\<exists>vsid' iden' ctim' sttg' payl'.
     VttcBox_AddChild (VttcBox vsid iden ctim sttg payl children) child
       = VttcBox vsid' iden' ctim' sttg' payl' (children @ [child])"
  by (cases child) simp_all

lemma foldl_WvttBox_AddChild_is_WvttBox:
  "\<exists>vttC' vlab' btrt'.
     foldl WvttBox_AddChild (WvttBox vttC vlab btrt children dri) cs
       = WvttBox vttC' vlab' btrt' (children @ cs) dri"
proof (induction cs arbitrary: vttC vlab btrt children)
  case Nil
  then show ?case by simp
next
  case (Cons c cs)
  from WvttBox_AddChild_is_WvttBox [of vttC vlab btrt children dri c]
  obtain a b d where "WvttBox_AddChild (WvttBox vttC vlab btrt children dri) c
       = WvttBox a b d (children @ [c]) dri" by blast
  with Cons.IH [of a b d "children @ [c]"] show ?case by simp
qed

lemma foldl_VttcBox_AddChild_is_VttcBox:
  "\<exists>vsid' iden' ctim' sttg' payl'.
     foldl VttcBox_AddChild (VttcBox vsid iden ctim sttg payl children) cs
       = VttcBox vsid' iden' ctim' sttg' payl' (children @ cs)"
proof (induction cs arbitrary: vsid iden ctim sttg payl children)
  case Nil
  then show ?case by simp
next
  case (Cons c cs)
  from VttcBox_AddChild_is_VttcBox [of vsid iden ctim sttg payl children c]
  obtain a b d e f where "VttcBox_AddChild (VttcBox vsid iden ctim sttg payl children) c
       = VttcBox a b d e f (children @ [c])" by blast
  with Cons.IH [of a b d e f "children @ [c]"] show ?case by simp
qed

lemma Size_WvttBox:
  "Size (WvttBox vttC vlab btrt children dri) = 16 + sum_list (map Size children)"
  by (simp add: sum_sizes_eq nrWvttBytesBeforeChildren_def)

lemma Size_VttcBox:
  "Size (VttcBox vsid iden ctim sttg payl children) = 8 + sum_list (map Size children)"
  by (simp add: sum_sizes_eq boxHeaderSize_def)

text \<open>
  C6. The size of a container is computed from its current children whenever it is
  asked for: for \<open>wvtt\<close> it is the 16 bytes before the children (header and sample
  entry) plus the sum of the sizes of the children, for \<open>vttc\<close> the 8 bytes of the
  header plus that sum. After any sequence of \<open>AddChild\<close> the children are the old ones
  followed by the added ones in order, and the size is the fixed part plus the sum over
  all of them; one \<open>AddChild\<close> adds the size of the child.
\<close>

theorem container_size_is_header_plus_children:
  "Size (foldl WvttBox_AddChild (WvttBox vttC vlab btrt children dri) cs)
      = of_nat nrWvttBytesBeforeChildren + sum_list (map Size (children @ cs))
   \<and> Children (foldl WvttBox_AddChild (WvttBox vttC vlab btrt children dri) cs) = children @ cs
   \<and> Size (WvttBox_AddChild (WvttBox vttC vlab btrt children dri) child)
      = Size (WvttBox vttC vlab btrt children dri) + Size child
   \<and> Size NewWvttBox = of_nat nrWvttBytesBeforeChildren
   \<and> Size (foldl VttcBox_AddChild (VttcBox vsid iden ctim sttg payl children') cs')
      = of_nat boxHeaderSize + sum_list (map Size (children' @ cs'))
   \<and> Children (foldl VttcBox_AddChild (VttcBox vsid iden ctim sttg payl children') cs')
      = children' @ cs'
   \<and> Size (VttcBox_AddChild (VttcBox vsid iden ctim sttg payl children') child')
      = Size (VttcBox vsid iden ctim sttg payl children') + Size child'
   \<and> Size (VttcBox vsid iden ctim sttg payl children') = containerSize children'"
proof -
  obtain a b c where w: "foldl WvttBox_AddChild (WvttBox vttC vlab btrt children dri) cs
       = WvttBox a b c (children @ cs) dri"
    using foldl_WvttBox_AddChild_is_WvttBox by blast
  obtain a1 b1 c1 where w1: "WvttBox_AddChild (WvttBox vttC vlab btrt children dri) child
       = WvttBox a1 b1 c1 (children @ [child]) dri"
    using WvttBox_AddChild_is_WvttBox by blast
  obtain d e f g h where v: "foldl VttcBox_AddChild (VttcBox vsid iden ctim sttg payl children') cs'
       = VttcBox d e f g h (children' @ cs')"
    using foldl_VttcBox_AddChild_is_VttcBox by blast
  obtain d1 e1 f1 g1 h1 where v1: "VttcBox_AddChild (VttcBox vsid iden ctim sttg payl children') child'
       = VttcBox d1 e1 f1 g1 h1 (children' @ [child'])"
    using VttcBox_AddChild_is_VttcBox by blast
  show ?thesis
    unfolding w w1 v v1
    by (simp add: sum_sizes_eq nrWvttBytesBeforeChildren_def boxHeaderSize_def
          NewWvttBox_def containerSize_def)
qed

theorem container_size_is_header_plus_children_witness:
  "Size (foldl WvttBox_AddChild NewWvttBox [VttCBox ''WEBVTT'', VlabBox ''ab'']) = 16 + (14 + 10)
   \<and> Children (foldl WvttBox_AddChild NewWvttBox [VttCBox ''WEBVTT'', VlabBox ''ab''])
      = [VttCBox ''WEBVTT'', VlabBox ''ab'']
   \<and> Size (foldl VttcBox_AddChild (VttcBox None None None None None [])
            [PaylBox ''hi'', VsidBox 7]) = 8 + (10 + 12)"
  using container_size_is_header_plus_children
    [of None None None "[]" 1 "[VttCBox ''WEBVTT'', VlabBox ''ab'']" VtteBox
        None None None None None "[]" "[PaylBox ''hi'', VsidBox 7]" VtteBox]
  by (simp add: NewWvttBox_def nrWvttBytesBeforeChildren_def boxHeaderSize_def)
subsection \<open>Children that overrun their container\<close>

lemma DecodeWvtt_loop_overrun:
  assumes "DecodeBox pos r = Inr (box, r')"
    and "pos + Size box \<noteq> startPos + hdr_size hdr"
    and "startPos + hdr_size hdr < pos + Size box"
  shows "DecodeWvtt_loop hdr startPos w pos r = Inl (MalformedContainer ''Bad size in wvtt'')"
  using assms by (simp add: DecodeWvtt_loop.simps Let_def)

lemma children_loop_overrun:
  assumes "DecodeBox pos r = Inr (box, r')"
    and "pos \<noteq> endPos"
    and "endPos < pos + Size box"
  shows "\<exists>msg. children_loop endPos l pos r = Inl (MalformedContainer msg)"
  using assms by (simp add: children_loop.simps Let_def)

lemma within_end_Nil: "within_end pos [] endPos"
  by (simp add: within_end_def)

lemma within_end_Cons:
  assumes "pos + Size c \<le> endPos" "within_end (pos + Size c) cs endPos"
  shows "within_end pos (c # cs) endPos"
  unfolding within_end_def
proof (intro allI impI)
  fix k assume k: "0 < k \<and> k \<le> length (c # cs)"
  show "pos + sum_list (map Size (take k (c # cs))) \<le> endPos"
  proof (cases k)
    case 0
    with k show ?thesis by simp
  next
    case (Suc j)
    show ?thesis
    proof (cases "j = 0")
      case True
      with Suc assms(1) show ?thesis by simp
    next
      case False
      with Suc k assms(2) have "pos + Size c + sum_list (map Size (take j cs)) \<le> endPos"
        by (simp add: within_end_def)
      with Suc show ?thesis by (simp add: add.assoc)
    qed
  qed
qed

lemma DecodeWvtt_loop_Inr:
  "DecodeWvtt_loop hdr startPos w pos r = Inr w' \<Longrightarrow>
     \<exists>cs. w' = foldl WvttBox_AddChild w cs \<and> within_end pos cs (startPos + hdr_size hdr)"
proof (induction "length r" arbitrary: w pos r rule: less_induct)
  case less
  show ?case
  proof (cases "DecodeBox pos r")
    case (Inl e)
    with less.prems have "w' = w"
      by (simp add: DecodeWvtt_loop.simps split: if_splits)
    then have "w' = foldl WvttBox_AddChild w [] \<and> within_end pos [] (startPos + hdr_size hdr)"
      by (simp add: within_end_Nil)
    then show ?thesis by blast
  next
    case (Inr p)
    then obtain box r' where br: "DecodeBox pos r = Inr (box, r')" by (cases p) auto
    let ?w1 = "WvttBox_AddChild w box"
    let ?pos1 = "pos + Size box"
    let ?end = "startPos + hdr_size hdr"
    show ?thesis
    proof (cases "?pos1 = ?end")
      case True
      with br less.prems have "w' = ?w1" by (simp add: DecodeWvtt_loop.simps Let_def)
      moreover have "within_end pos [box] ?end"
        using True by (intro within_end_Cons within_end_Nil) simp
      ultimately have "w' = foldl WvttBox_AddChild w [box] \<and> within_end pos [box] ?end"
        by simp
      then show ?thesis by blast
    next
      case False
      with br less.prems have le: "\<not> ?end < ?pos1" and shorter: "length r' < length r"
        and rec: "DecodeWvtt_loop hdr startPos ?w1 ?pos1 r' = Inr w'"
        by (auto simp: DecodeWvtt_loop.simps Let_def split: if_splits)
      from less.hyps [OF shorter rec] obtain cs where
        cs: "w' = foldl WvttBox_AddChild ?w1 cs" "within_end ?pos1 cs ?end" by blast
      from le have "?pos1 \<le> ?end" by simp
      with cs(2) have "within_end pos (box # cs) ?end" by (intro within_end_Cons)
      with cs(1) have "w' = foldl WvttBox_AddChild w (box # cs) \<and> within_end pos (box # cs) ?end"
        by simp
      then show ?thesis by blast
    qed
  qed
qed

lemma DecodeWvtt_Inr:
  assumes "DecodeWvtt hdr startPos r = Inr (w, unread)"
  shows "8 \<le> length r \<and> unread = []
    \<and> (\<exists>cs. w = foldl WvttBox_AddChild
                  (WvttBox None None None [] (be_word (take 2 (drop 6 r)))) cs
           \<and> within_end (startPos + 16) cs (startPos + hdr_size hdr))"
proof -
  from assms have len: "8 \<le> length r"
    by (auto simp: DecodeWvtt.simps Let_def slen_ReadAll split: if_splits)
  with assms obtain w' where
    lp: "DecodeWvtt_loop hdr startPos (WvttBox None None None [] (be_word (take 2 (drop 6 r))))
           (startPos + 16) (drop 8 r) = Inr w'" and "w = w'" "unread = []"
    by (auto simp: DecodeWvtt.simps Let_def slen_ReadAll contents_ReadAll
          nrWvttBytesBeforeChildren_def split: sum.splits)
  with DecodeWvtt_loop_Inr [OF lp] len show ?thesis by auto
qed

lemma children_loop_Inr:
  "children_loop endPos l pos r = Inr (l', unread) \<Longrightarrow>
     \<exists>cs. l' = l @ cs \<and> within_end pos cs endPos \<and> pos + sum_list (map Size cs) = endPos"
proof (induction "length r" arbitrary: l pos r rule: less_induct)
  case less
  show ?case
  proof (cases "pos = endPos")
    case True
    with less.prems have "l' = l" by (simp add: children_loop.simps)
    with True have "l' = l @ [] \<and> within_end pos [] endPos
        \<and> pos + sum_list (map Size []) = endPos"
      by (simp add: within_end_Nil)
    then show ?thesis by blast
  next
    case False
    show ?thesis
    proof (cases "DecodeBox pos r")
      case (Inl e)
      with False less.prems show ?thesis
        by (simp add: children_loop.simps split: if_splits)
    next
      case (Inr p)
      then obtain box r' where br: "DecodeBox pos r = Inr (box, r')" by (cases p) auto
      let ?pos1 = "pos + Size box"
      from False br less.prems have le: "\<not> endPos < ?pos1" and shorter: "length r' < length r"
        and rec: "children_loop endPos (l @ [box]) ?pos1 r' = Inr (l', unread)"
        by (auto simp: children_loop.simps Let_def split: if_splits)
      from less.hyps [OF shorter rec] obtain cs where
        cs: "l' = (l @ [box]) @ cs" "within_end ?pos1 cs endPos"
          "?pos1 + sum_list (map Size cs) = endPos" by blast
      from le have "?pos1 \<le> endPos" by simp
      with cs(2) have "within_end pos (box # cs) endPos" by (intro within_end_Cons)
      with cs(1,3) have "l' = l @ (box # cs) \<and> within_end pos (box # cs) endPos
          \<and> pos + sum_list (map Size (box # cs)) = endPos"
        by (simp add: add.assoc)
      then show ?thesis by blast
    qed
  qed
qed

lemma Children_foldl_WvttBox_AddChild:
  "Children (foldl WvttBox_AddChild (WvttBox vttC vlab btrt children dri) cs) = children @ cs"
  using foldl_WvttBox_AddChild_is_WvttBox [of vttC vlab btrt children dri cs] by auto

lemma Children_foldl_VttcBox_AddChild:
  "Children (foldl VttcBox_AddChild (VttcBox vsid iden ctim sttg payl children) cs)
     = children @ cs"
  using foldl_VttcBox_AddChild_is_VttcBox [of vsid iden ctim sttg payl children cs] by auto

lemma DecodeBox_payl_hi: "DecodeBox 16 (Encode (PaylBox ''hi'')) = Inr (PaylBox ''hi'', [])"
  by code_simp

lemma DecodeWvtt_ok_example:
  "DecodeWvtt \<lparr>hdr_name = ''wvtt'', hdr_size = 26, hdrlen = 8\<rparr> 0
     ([0, 0, 0, 0, 0, 0, 0, 1] @ Encode (PaylBox ''hi''))
   = Inr (WvttBox None None None [PaylBox ''hi''] 1, [])"
  by code_simp

lemma DecodeVttc_ok_example:
  "DecodeVttc \<lparr>hdr_name = ''vttc'', hdr_size = 18, hdrlen = 8\<rparr> 0 (Encode (PaylBox ''hi''))
   = Inr (VttcBox None None None None (Some (PaylBox ''hi'')) [PaylBox ''hi''], [])"
  by code_simp

text \<open>
  A sample entry of declared size 26 whose only child is a \<open>vsid\<close> box of declared size
  10: the child decodes to a box of size 12, which ends at offset 28.
\<close>

lemma DecodeBox_wvtt_overrun_example:
  "DecodeBox 0 ([0, 0, 0, 26, 0x77, 0x76, 0x74, 0x74] @ [0, 0, 0, 0, 0, 0, 0, 1]
                @ [0, 0, 0, 10, 0x76, 0x73, 0x69, 0x64, 1, 2])
   = Inl (MalformedContainer ''Bad size in wvtt'')"
  by code_simp

text \<open>
  C5. When the running offset of a container loop exceeds the end offset of the
  container after a child has been decoded, decoding stops with \<open>MalformedContainer\<close>
  (in \<open>DecodeWvtt\<close> the error \<open>Bad size in wvtt\<close>): the round of the loop in which this
  happens returns the error, whatever was decoded before it. And a container that is
  returned had no such child: after each of its children the running offset was within
  the end offset, so no child list cut short at an overrun is ever returned. Both hold
  for the loop of \<open>DecodeWvtt\<close> and for the loop of \<open>DecodeContainerChildren\<close>, which
  \<open>DecodeVttc\<close> uses.
\<close>

theorem container_decode_rejects_child_overrun:
  "(DecodeBox pos r = Inr (box, r') \<and> startPos + hdr_size hdr < pos + Size box \<longrightarrow>
      DecodeWvtt_loop hdr startPos w pos r = Inl (MalformedContainer ''Bad size in wvtt''))
   \<and> (DecodeWvtt hdr1 startPos1 r1 = Inr (w1, unread1) \<longrightarrow>
      within_end (startPos1 + of_nat nrWvttBytesBeforeChildren) (Children w1)
        (startPos1 + hdr_size hdr1))
   \<and> (DecodeBox pos2 r2 = Inr (box2, r2') \<and> pos2 \<noteq> endPos2 \<and> endPos2 < pos2 + Size box2 \<longrightarrow>
      (\<exists>msg. children_loop endPos2 l2 pos2 r2 = Inl (MalformedContainer msg)))
   \<and> (DecodeVttc hdr3 startPos3 r3 = Inr (v3, unread3) \<longrightarrow>
      within_end (startPos3 + 8) (Children v3) (startPos3 + hdr_size hdr3))"
proof (intro conjI impI)
  assume "DecodeBox pos r = Inr (box, r') \<and> startPos + hdr_size hdr < pos + Size box"
  then show "DecodeWvtt_loop hdr startPos w pos r = Inl (MalformedContainer ''Bad size in wvtt'')"
    by (intro DecodeWvtt_loop_overrun [of pos r box r']) auto
next
  assume "DecodeWvtt hdr1 startPos1 r1 = Inr (w1, unread1)"
  from DecodeWvtt_Inr [OF this]
  show "within_end (startPos1 + of_nat nrWvttBytesBeforeChildren) (Children w1)
        (startPos1 + hdr_size hdr1)"
    by (auto simp: Children_foldl_WvttBox_AddChild nrWvttBytesBeforeChildren_def)
next
  assume "DecodeBox pos2 r2 = Inr (box2, r2') \<and> pos2 \<noteq> endPos2 \<and> endPos2 < pos2 + Size box2"
  then show "\<exists>msg. children_loop endPos2 l2 pos2 r2 = Inl (MalformedContainer msg)"
    using children_loop_overrun [of pos2 r2 box2 r2' endPos2 l2] by blast
next
  assume a: "DecodeVttc hdr3 startPos3 r3 = Inr (v3, unread3)"
  then obtain children where
    cl: "children_loop (startPos3 + hdr_size hdr3) [] (startPos3 + 8) r3 = Inr (children, unread3)"
    and v: "v3 = foldl VttcBox_AddChild (VttcBox None None None None None []) children"
    by (auto simp: DecodeVttc.simps DecodeContainerChildren.simps split: sum.splits)
  from children_loop_Inr [OF cl] v
  show "within_end (startPos3 + 8) (Children v3) (startPos3 + hdr_size hdr3)"
    by (auto simp: Children_foldl_VttcBox_AddChild)
qed

theorem container_decode_rejects_child_overrun_witness:
  "DecodeBox 16 (Encode (PaylBox ''hi'')) = Inr (PaylBox ''hi'', [])
   \<and> (0 :: 64 word) + 20 < 16 + Size (PaylBox ''hi'')
   \<and> DecodeWvtt_loop \<lparr>hdr_name = ''wvtt'', hdr_size = 20, hdrlen = 8\<rparr> 0
        (WvttBox None None None [] 1) 16 (Encode (PaylBox ''hi''))
      = Inl (MalformedContainer ''Bad size in wvtt'')
   \<and> DecodeWvtt \<lparr>hdr_name = ''wvtt'', hdr_size = 26, hdrlen = 8\<rparr> 0
        ([0, 0, 0, 0, 0, 0, 0, 1] @ Encode (PaylBox ''hi''))
      = Inr (WvttBox None None None [PaylBox ''hi''] 1, [])
   \<and> within_end 16 [PaylBox ''hi''] 26
   \<and> (\<exists>msg. children_loop 20 [] 16 (Encode (PaylBox ''hi'')) = Inl (MalformedContainer msg))
   \<and> DecodeVttc \<lparr>hdr_name = ''vttc'', hdr_size = 18, hdrlen = 8\<rparr> 0 (Encode (PaylBox ''hi''))
      = Inr (VttcBox None None None None (Some (PaylBox ''hi'')) [PaylBox ''hi''], [])
   \<and> within_end 8 [PaylBox ''hi''] 18
   \<and> DecodeBox 0 ([0, 0, 0, 26, 0x77, 0x76, 0x74, 0x74] @ [0, 0, 0, 0, 0, 0, 0, 1]
                   @ [0, 0, 0, 10, 0x76, 0x73, 0x69, 0x64, 1, 2])
      = Inl (MalformedContainer ''Bad size in wvtt'')"
proof -
  note h = container_decode_rejects_child_overrun
    [where pos = 16 and r = "Encode (PaylBox ''hi'')" and box = "PaylBox ''hi''" and r' = "[]"
       and startPos = 0 and hdr = "\<lparr>hdr_name = ''wvtt'', hdr_size = 20, hdrlen = 8\<rparr>"
       and w = "WvttBox None None None [] 1"
       and ?hdr1.0 = "\<lparr>hdr_name = ''wvtt'', hdr_size = 26, hdrlen = 8\<rparr>"
       and ?startPos1.0 = 0
       and ?r1.0 = "[0, 0, 0, 0, 0, 0, 0, 1] @ Encode (PaylBox ''hi'')"
       and ?w1.0 = "WvttBox None None None [PaylBox ''hi''] 1" and ?unread1.0 = "[]"
       and ?pos2.0 = 16 and ?r2.0 = "Encode (PaylBox ''hi'')" and ?box2.0 = "PaylBox ''hi''"
       and ?r2'.0 = "[]" and ?endPos2.0 = 20 and ?l2.0 = "[]"
       and ?hdr3.0 = "\<lparr>hdr_name = ''vttc'', hdr_size = 18, hdrlen = 8\<rparr>"
       and ?startPos3.0 = 0 and ?r3.0 = "Encode (PaylBox ''hi'')"
       and ?v3.0 = "VttcBox None None None None (Some (PaylBox ''hi'')) [PaylBox ''hi'']"
       and ?unread3.0 = "[]"]
  have sz: "(0 :: 64 word) + 20 < 16 + Size (PaylBox ''hi'')"
    by (simp add: boxHeaderSize_def)
  have c1: "DecodeWvtt_loop \<lparr>hdr_name = ''wvtt'', hdr_size = 20, hdrlen = 8\<rparr> 0
        (WvttBox None None None [] 1) 16 (Encode (PaylBox ''hi''))
      = Inl (MalformedContainer ''Bad size in wvtt'')"
    using h [THEN conjunct1] DecodeBox_payl_hi sz by simp
  have c2: "within_end 16 [PaylBox ''hi''] 26"
    using h [THEN conjunct2, THEN conjunct1] DecodeWvtt_ok_example
    by (simp add: nrWvttBytesBeforeChildren_def)
  have c3: "\<exists>msg. children_loop 20 [] 16 (Encode (PaylBox ''hi'')) = Inl (MalformedContainer msg)"
    using h [THEN conjunct2, THEN conjunct2, THEN conjunct1] DecodeBox_payl_hi sz by simp
  have c4: "within_end 8 [PaylBox ''hi''] 18"
    using h [THEN conjunct2, THEN conjunct2, THEN conjunct2] DecodeVttc_ok_example
    by simp
  from c1 c2 c3 c4 DecodeBox_payl_hi DecodeWvtt_ok_example DecodeVttc_ok_example
    DecodeBox_wvtt_overrun_example sz
  show ?thesis by blast
qed
subsection \<open>Encoding and decoding a tree\<close>

lemma unat_of_nat_64: "n < 2 ^ 64 \<Longrightarrow> unat (of_nat n :: 64 word) = n"
  by (simp add: unat_of_nat)

lemma of_nat_less_2p32:
  assumes "n < 2 ^ 32"
  shows "(of_nat n :: 64 word) < 2 ^ 32"
proof -
  from assms have "n < 2 ^ 64" by (rule less_trans) simp
  then have "unat (of_nat n :: 64 word) = n" by (rule unat_of_nat_64)
  with assms show ?thesis by (simp add: word_less_nat_alt)
qed

lemma length_EncodeHeader_ge: "length tp = 4 \<Longrightarrow> 8 \<le> length (EncodeHeader sz tp)"
  by (simp add: EncodeHeader_def length_be_bytes length_bytes_of_string)

lemma length_EncodeHeader_cases:
  "length (EncodeHeader sz tp) = (if sz < 2 ^ 32 then 4 else 12) + length tp"
  by (simp add: EncodeHeader_def length_be_bytes length_bytes_of_string)

text \<open>A leaf with a payload of \<open>n\<close> bytes.\<close>

lemma leaf_size:
  assumes "length (EncodeHeader (of_nat (8 + n)) tp) + n < 2 ^ 32" "length tp = 4"
  shows "(of_nat (8 + n) :: 64 word) < 2 ^ 32"
    and "length (EncodeHeader (of_nat (8 + n)) tp) + n = 8 + n"
proof -
  from assms have "8 + n < 2 ^ 32"
    using length_EncodeHeader_ge [of tp "of_nat (8 + n)"] by simp
  then show "(of_nat (8 + n) :: 64 word) < 2 ^ 32" by (rule of_nat_less_2p32)
  then show "length (EncodeHeader (of_nat (8 + n)) tp) + n = 8 + n"
    using assms(2) by (simp add: length_EncodeHeader_cases)
qed

lemma length_Encode_ge: "built T \<Longrightarrow> 8 \<le> length (Encode T)"
  by (cases T) (simp_all add: length_EncodeHeader_ge trans_le_add1 del: built.simps(1,2))

lemma length_concat_Encode_elem:
  "c \<in> set cs \<Longrightarrow> length (Encode c) \<le> length (concat (map Encode cs))"
  by (induction cs) auto

lemma sum_list_Size_of_nat:
  assumes "\<And>c. c \<in> set cs \<Longrightarrow> Size c = of_nat (length (Encode c))"
  shows "sum_list (map Size cs) = of_nat (length (concat (map Encode cs)))"
  using assms by (induction cs) simp_all

lemma Size_is_encoded_length:
  "built T \<Longrightarrow> length (Encode T) < 2 ^ 32
   \<Longrightarrow> Size T = of_nat (length (Encode T)) \<and> Size T < 2 ^ 32"
proof (induction T)
  case (WvttBox vttC vlab btrt children dri)
  let ?T = "WvttBox vttC vlab btrt children dri"
  let ?n = "length (concat (map Encode children))"
  have len: "length (Encode ?T) = length (EncodeHeader (Size ?T) ''wvtt'') + 8 + ?n"
    by (simp add: length_be_bytes)
  have small: "16 + ?n < 2 ^ 32"
    using WvttBox.prems(2) len length_EncodeHeader_ge [of "''wvtt''" "Size ?T"] by simp
  have "Size c = of_nat (length (Encode c))" if "c \<in> set children" for c
  proof -
    from that length_concat_Encode_elem have "length (Encode c) \<le> ?n" by blast
    with small have "length (Encode c) < 2 ^ 32" by simp
    moreover from WvttBox.prems(1) that have "built c" by (simp add: list_all_iff)
    ultimately show ?thesis using WvttBox.IH(4) [OF that] by simp
  qed
  then have "sum_list (map Size children) = of_nat ?n" by (rule sum_list_Size_of_nat)
  then have sz: "Size ?T = of_nat (16 + ?n)"
    by (simp add: sum_sizes_eq nrWvttBytesBeforeChildren_def)
  with small have lt: "Size ?T < 2 ^ 32" by (simp only: of_nat_less_2p32)
  then have "length (EncodeHeader (Size ?T) ''wvtt'') = 8"
    by (simp add: length_EncodeHeader)
  with len sz lt show ?case by simp
next
  case (VttcBox vsid iden ctim sttg payl children)
  let ?T = "VttcBox vsid iden ctim sttg payl children"
  let ?n = "length (concat (map Encode children))"
  have len: "length (Encode ?T) = length (EncodeHeader (Size ?T) ''vttc'') + ?n"
    by simp
  have small: "8 + ?n < 2 ^ 32"
    using VttcBox.prems(2) len length_EncodeHeader_ge [of "''vttc''" "Size ?T"] by simp
  have "Size c = of_nat (length (Encode c))" if "c \<in> set children" for c
  proof -
    from that length_concat_Encode_elem have "length (Encode c) \<le> ?n" by blast
    with small have "length (Encode c) < 2 ^ 32" by simp
    moreover from VttcBox.prems(1) that have "built c" by (simp add: list_all_iff)
    ultimately show ?thesis using VttcBox.IH(6) [OF that] by simp
  qed
  then have "sum_list (map Size children) = of_nat ?n" by (rule sum_list_Size_of_nat)
  then have sz: "Size ?T = of_nat (8 + ?n)"
    by (simp add: sum_sizes_eq boxHeaderSize_def)
  with small have lt: "Size ?T < 2 ^ 32" by (simp only: of_nat_less_2p32)
  then have "length (EncodeHeader (Size ?T) ''vttc'') = 8"
    by (simp add: length_EncodeHeader)
  with len sz lt show ?case by simp
next
  case (VttCBox x)
  then show ?case
    using leaf_size [of "length x" "''vttC''"]
    by (simp add: boxHeaderSize_def length_bytes_of_string)
next
  case (VlabBox x)
  then show ?case
    using leaf_size [of "length x" "''vlab''"]
    by (simp add: boxHeaderSize_def length_bytes_of_string)
next
  case VtteBox
  then show ?case
    using leaf_size [of 0 "''vtte''"] by (simp add: boxHeaderSize_def)
next
  case (VsidBox x)
  then show ?case
    using leaf_size [of 4 "''vsid''"] by (simp add: boxHeaderSize_def length_be_bytes)
next
  case (CtimBox x)
  then show ?case
    using leaf_size [of "length x" "''ctim''"]
    by (simp add: boxHeaderSize_def length_bytes_of_string)
next
  case (IdenBox x)
  then show ?case
    using leaf_size [of "length x" "''iden''"]
    by (simp add: boxHeaderSize_def length_bytes_of_string)
next
  case (SttgBox x)
  then show ?case
    using leaf_size [of "length x" "''sttg''"]
    by (simp add: boxHeaderSize_def length_bytes_of_string)
next
  case (PaylBox x)
  then show ?case
    using leaf_size [of "length x" "''payl''"]
    by (simp add: boxHeaderSize_def length_bytes_of_string)
next
  case (VttaBox x)
  then show ?case
    using leaf_size [of "length x" "''vtta''"]
    by (simp add: boxHeaderSize_def length_bytes_of_string)
next
  case (BtrtBox x)
  then show ?case by simp
next
  case (UnknownBox n x)
  then show ?case by simp
qed

text \<open>A leaf with a compact header: the dispatcher gives its decoder exactly the payload.\<close>

lemma leaf_roundtrip:
  assumes tp: "length tp = 4" "tp \<noteq> ''wvtt''" "tp \<noteq> ''vttc''" "leaf_decoders tp = Some d"
    and small: "8 + length payload < 2 ^ 32"
    and d: "\<And>h p. d h p payload = Inr (b, [])"
  shows "DecodeBox startPos (EncodeHeader (of_nat (8 + length payload)) tp @ payload @ rest)
           = Inr (b, rest)"
proof -
  let ?sz = "of_nat (8 + length payload) :: 64 word"
  from small have "8 + length payload < 2 ^ 64" by (rule less_trans) simp
  then have u: "unat ?sz = 8 + length payload" by (rule unat_of_nat_64)
  from small have lt: "?sz < 2 ^ 32" by (rule of_nat_less_2p32)
  from u have n0: "?sz \<noteq> 0" and n1: "?sz \<noteq> 1"
    by (auto simp: word_unat_eq_iff)
  have le: "unat ?sz - 8 \<le> length (payload @ rest)" using u by simp
  show ?thesis
    using DecodeBox_compact_leaf [OF lt n0 n1 tp le, of startPos] d u
    by simp
qed

lemma DecodeBox_Nil: "DecodeBox pos [] = Inl EOF"
  by (simp add: DecodeBox.simps decodeHeader_def)

lemma DecodeBox_compact_wvtt:
  fixes sz :: "64 word"
  assumes "sz < 2 ^ 32" "sz \<noteq> 0" "sz \<noteq> 1"
    and "unat sz - 8 \<le> length rest"
  shows "DecodeBox startPos (EncodeHeader sz ''wvtt'' @ rest) =
     (case DecodeWvtt \<lparr>hdr_name = ''wvtt'', hdr_size = sz, hdrlen = 8\<rparr> startPos
             (take (unat sz - 8) rest) of
        Inl e \<Rightarrow> Inl e
      | Inr (b, unread) \<Rightarrow> Inr (b, drop (unat sz - 8 - length unread) rest))"
proof -
  have l4: "length ''wvtt'' = 4" by simp
  show ?thesis
    using assms(4)
    by (simp add: DecodeBox.simps decodeHeader_EncodeHeader [OF assms(1-3) l4] Let_def
             split: sum.split prod.split)
qed

lemma DecodeBox_compact_vttc:
  fixes sz :: "64 word"
  assumes "sz < 2 ^ 32" "sz \<noteq> 0" "sz \<noteq> 1"
    and "unat sz - 8 \<le> length rest"
  shows "DecodeBox startPos (EncodeHeader sz ''vttc'' @ rest) =
     (case DecodeVttc \<lparr>hdr_name = ''vttc'', hdr_size = sz, hdrlen = 8\<rparr> startPos
             (take (unat sz - 8) rest) of
        Inl e \<Rightarrow> Inl e
      | Inr (b, unread) \<Rightarrow> Inr (b, drop (unat sz - 8 - length unread) rest))"
proof -
  have l4: "length ''vttc'' = 4" by simp
  show ?thesis
    using assms(4)
    by (simp add: DecodeBox.simps decodeHeader_EncodeHeader [OF assms(1-3) l4] Let_def
             split: sum.split prod.split)
qed

lemma unat_plus_of_nat:
  fixes pos :: "64 word"
  assumes "unat pos + n < 2 ^ 64"
  shows "unat (pos + of_nat n) = unat pos + n"
proof -
  from assms have "n < 2 ^ 64" by simp
  then have u: "unat (of_nat n :: 64 word) = n" by (rule unat_of_nat_64)
  with assms have "unat pos + unat (of_nat n :: 64 word) < 2 ^ LENGTH(64)" by simp
  then have "unat (pos + of_nat n) = unat pos + unat (of_nat n :: 64 word)"
    by (simp only: unat_add_lem)
  with u show ?thesis by simp
qed

lemma unat_lt_2p64: "unat (x :: 64 word) < 2 ^ 64"
  using unsigned_less [of x, where 'a = nat] by simp

lemma concat_Encode_empty:
  assumes "\<And>c. c \<in> set cs \<Longrightarrow> 0 < length (Encode c)"
    and "length (concat (map Encode cs)) = 0"
  shows "cs = []"
proof (cases cs)
  case Nil
  then show ?thesis .
next
  case (Cons c cs')
  with assms(1) [of c] have "0 < length (Encode c)" by simp
  with assms(2) Cons show ?thesis by simp
qed

lemma DecodeWvtt_loop_roundtrip:
  assumes "\<And>c pos rest. c \<in> set cs \<Longrightarrow> unat pos + length (Encode c) < 2 ^ 64
             \<Longrightarrow> DecodeBox pos (Encode c @ rest) = Inr (c, rest)"
    and "\<And>c. c \<in> set cs \<Longrightarrow> Size c = of_nat (length (Encode c)) \<and> 0 < length (Encode c)"
    and "unat pos + length (concat (map Encode cs)) = unat (startPos + hdr_size hdr)"
  shows "DecodeWvtt_loop hdr startPos w pos (concat (map Encode cs))
           = Inr (foldl WvttBox_AddChild w cs)"
  using assms
proof (induction cs arbitrary: w pos)
  case Nil
  show ?case by (simp add: DecodeWvtt_loop.simps DecodeBox_Nil)
next
  case (Cons c cs)
  let ?end = "startPos + hdr_size hdr"
  let ?r = "concat (map Encode cs)"
  let ?lc = "length (Encode c)"
  from Cons.prems(3) have inv: "unat pos + ?lc + length ?r = unat ?end" by simp
  then have bound: "unat pos + ?lc < 2 ^ 64" using unat_lt_2p64 [of ?end] by simp
  have dec: "DecodeBox pos (Encode c @ ?r) = Inr (c, ?r)"
    using Cons.prems(1) [of c pos ?r] bound by simp
  from Cons.prems(2) [of c] have szc: "Size c = of_nat ?lc" and pos_c: "0 < ?lc" by simp_all
  have upos: "unat (pos + Size c) = unat pos + ?lc"
    unfolding szc using bound by (rule unat_plus_of_nat)
  with inv have inv': "unat (pos + Size c) + length ?r = unat ?end" by simp
  show ?case
  proof (cases "pos + Size c = ?end")
    case True
    with inv' have "length ?r = 0" by simp
    with Cons.prems(2) have "cs = []" by (intro concat_Encode_empty) simp_all
    with True dec show ?thesis by (simp add: DecodeWvtt_loop.simps Let_def)
  next
    case False
    from inv' have nlt: "\<not> ?end < pos + Size c" by (simp add: word_less_nat_alt)
    have rec: "DecodeWvtt_loop hdr startPos (WvttBox_AddChild w c) (pos + Size c) ?r
                 = Inr (foldl WvttBox_AddChild (WvttBox_AddChild w c) cs)"
      using Cons.prems(1,2) inv' by (intro Cons.IH) simp_all
    have "DecodeWvtt_loop hdr startPos w pos (Encode c @ ?r)
            = DecodeWvtt_loop hdr startPos (WvttBox_AddChild w c) (pos + Size c) ?r"
      using dec False nlt pos_c
      by (subst DecodeWvtt_loop.simps) (simp add: Let_def)
    with rec show ?thesis by simp
  qed
qed

lemma children_loop_roundtrip:
  assumes "\<And>c pos rest. c \<in> set cs \<Longrightarrow> unat pos + length (Encode c) < 2 ^ 64
             \<Longrightarrow> DecodeBox pos (Encode c @ rest) = Inr (c, rest)"
    and "\<And>c. c \<in> set cs \<Longrightarrow> Size c = of_nat (length (Encode c)) \<and> 0 < length (Encode c)"
    and "unat pos + length (concat (map Encode cs)) = unat endPos"
  shows "children_loop endPos l pos (concat (map Encode cs)) = Inr (l @ cs, [])"
  using assms
proof (induction cs arbitrary: l pos)
  case Nil
  then have "pos = endPos" by (simp add: word_unat_eq_iff)
  then show ?case by (simp add: children_loop.simps)
next
  case (Cons c cs)
  let ?r = "concat (map Encode cs)"
  let ?lc = "length (Encode c)"
  from Cons.prems(3) have inv: "unat pos + ?lc + length ?r = unat endPos" by simp
  then have bound: "unat pos + ?lc < 2 ^ 64" using unat_lt_2p64 [of endPos] by simp
  have dec: "DecodeBox pos (Encode c @ ?r) = Inr (c, ?r)"
    using Cons.prems(1) [of c pos ?r] bound by simp
  from Cons.prems(2) [of c] have szc: "Size c = of_nat ?lc" and pos_c: "0 < ?lc" by simp_all
  have upos: "unat (pos + Size c) = unat pos + ?lc"
    unfolding szc using bound by (rule unat_plus_of_nat)
  with inv have inv': "unat (pos + Size c) + length ?r = unat endPos" by simp
  from inv pos_c have ne: "pos \<noteq> endPos" by (auto simp: word_unat_eq_iff)
  from inv' have nlt: "\<not> endPos < pos + Size c" by (simp add: word_less_nat_alt)
  have rec: "children_loop endPos (l @ [c]) (pos + Size c) ?r = Inr ((l @ [c]) @ cs, [])"
    using Cons.prems(1,2) inv' by (intro Cons.IH) simp_all
  have "children_loop endPos l pos (Encode c @ ?r)
          = children_loop endPos (l @ [c]) (pos + Size c) ?r"
    using dec ne nlt pos_c
    by (subst children_loop.simps) (simp add: Let_def)
  with rec show ?case by simp
qed

lemma size_not_0_1:
  fixes sz :: "64 word"
  assumes "unat sz = 8 + n"
  shows "sz \<noteq> 0" "sz \<noteq> 1"
  using assms by (auto simp: word_unat_eq_iff)

lemma wvtt_roundtrip:
  assumes kids: "\<And>c pos rest. c \<in> set cs \<Longrightarrow> unat pos + length (Encode c) < 2 ^ 64
             \<Longrightarrow> DecodeBox pos (Encode c @ rest) = Inr (c, rest)"
    and szs: "\<And>c. c \<in> set cs \<Longrightarrow> Size c = of_nat (length (Encode c)) \<and> 0 < length (Encode c)"
    and small: "16 + length (concat (map Encode cs)) < 2 ^ 32"
    and nowrap: "unat startPos + (16 + length (concat (map Encode cs))) < 2 ^ 64"
  shows "DecodeBox startPos (Encode (WvttBox vttC vlab btrt cs dri) @ rest)
           = Inr (foldl WvttBox_AddChild (WvttBox None None None [] dri) cs, rest)"
proof -
  let ?n = "length (concat (map Encode cs))"
  let ?T = "WvttBox vttC vlab btrt cs dri"
  let ?sz = "of_nat (16 + ?n) :: 64 word"
  let ?payload = "replicate 6 0 @ be_bytes 2 dri @ concat (map Encode cs)"
  let ?hdr = "\<lparr>hdr_name = ''wvtt'', hdr_size = ?sz, hdrlen = 8\<rparr>"
  have "sum_list (map Size cs) = of_nat ?n"
    using szs by (intro sum_list_Size_of_nat) simp
  then have sz: "Size ?T = ?sz"
    by (simp add: sum_sizes_eq nrWvttBytesBeforeChildren_def)
  from small have lt: "?sz < 2 ^ 32" by (rule of_nat_less_2p32)
  from small have "16 + ?n < 2 ^ 64" by (rule less_trans) simp
  then have "unat ?sz = 16 + ?n" by (rule unat_of_nat_64)
  then have u: "unat ?sz = 8 + (8 + ?n)" by simp
  note n01 = size_not_0_1 [OF u]
  have enc: "Encode ?T @ rest = EncodeHeader ?sz ''wvtt'' @ (?payload @ rest)"
    by (simp only: Encode.simps sz append_assoc)
  have lp: "length ?payload = 8 + ?n" by (simp add: length_be_bytes)
  have le: "unat ?sz - 8 \<le> length (?payload @ rest)" using u lp by simp
  have tk: "take (unat ?sz - 8) (?payload @ rest) = ?payload" using u lp by simp
  have dri: "be_word (take 2 (drop 6 ?payload)) = dri"
    by (simp add: length_be_bytes be_word_be_bytes_16)
  have d8: "drop 8 ?payload = concat (map Encode cs)"
    by (simp add: length_be_bytes)
  have u16: "unat (startPos + of_nat 16) = unat startPos + 16"
    using nowrap by (intro unat_plus_of_nat) simp
  have uend: "unat (startPos + ?sz) = unat startPos + (16 + ?n)"
    using nowrap by (rule unat_plus_of_nat)
  have inv: "unat (startPos + of_nat 16) + ?n = unat (startPos + hdr_size ?hdr)"
    using u16 uend by simp
  have loop: "DecodeWvtt_loop ?hdr startPos (WvttBox None None None [] dri)
                (startPos + of_nat 16) (concat (map Encode cs))
              = Inr (foldl WvttBox_AddChild (WvttBox None None None [] dri) cs)"
    using kids szs inv by (rule DecodeWvtt_loop_roundtrip)
  have dw: "DecodeWvtt ?hdr startPos ?payload
              = Inr (foldl WvttBox_AddChild (WvttBox None None None [] dri) cs, [])"
    unfolding DecodeWvtt.simps Let_def slen_ReadAll contents_ReadAll dri d8
      nrWvttBytesBeforeChildren_def loop
    using lp by simp
  show ?thesis
    unfolding enc DecodeBox_compact_wvtt [OF lt n01 le] tk dw
    using u lp by simp
qed

lemma vttc_roundtrip:
  assumes kids: "\<And>c pos rest. c \<in> set cs \<Longrightarrow> unat pos + length (Encode c) < 2 ^ 64
             \<Longrightarrow> DecodeBox pos (Encode c @ rest) = Inr (c, rest)"
    and szs: "\<And>c. c \<in> set cs \<Longrightarrow> Size c = of_nat (length (Encode c)) \<and> 0 < length (Encode c)"
    and small: "8 + length (concat (map Encode cs)) < 2 ^ 32"
    and nowrap: "unat startPos + (8 + length (concat (map Encode cs))) < 2 ^ 64"
  shows "DecodeBox startPos (Encode (VttcBox vsid iden ctim sttg payl cs) @ rest)
           = Inr (foldl VttcBox_AddChild (VttcBox None None None None None []) cs, rest)"
proof -
  let ?n = "length (concat (map Encode cs))"
  let ?T = "VttcBox vsid iden ctim sttg payl cs"
  let ?sz = "of_nat (8 + ?n) :: 64 word"
  let ?payload = "concat (map Encode cs)"
  let ?hdr = "\<lparr>hdr_name = ''vttc'', hdr_size = ?sz, hdrlen = 8\<rparr>"
  have "sum_list (map Size cs) = of_nat ?n"
    using szs by (intro sum_list_Size_of_nat) simp
  then have sz: "Size ?T = ?sz"
    by (simp add: sum_sizes_eq boxHeaderSize_def)
  from small have lt: "?sz < 2 ^ 32" by (rule of_nat_less_2p32)
  from small have "8 + ?n < 2 ^ 64" by (rule less_trans) simp
  then have u: "unat ?sz = 8 + ?n" by (rule unat_of_nat_64)
  note n01 = size_not_0_1 [OF u]
  have enc: "Encode ?T @ rest = EncodeHeader ?sz ''vttc'' @ (?payload @ rest)"
    by (simp only: Encode.simps sz append_assoc)
  have le: "unat ?sz - 8 \<le> length (?payload @ rest)" using u by simp
  have tk: "take (unat ?sz - 8) (?payload @ rest) = ?payload" using u by simp
  have u8: "unat (startPos + 8) = unat startPos + 8"
    using nowrap unat_plus_of_nat [of startPos 8] by simp
  have uend: "unat (startPos + ?sz) = unat startPos + (8 + ?n)"
    using nowrap by (rule unat_plus_of_nat)
  have inv: "unat (startPos + 8) + ?n = unat (startPos + hdr_size ?hdr)"
    using u8 uend by simp
  have loop: "children_loop (startPos + hdr_size ?hdr) [] (startPos + 8) ?payload
              = Inr ([] @ cs, [])"
    using kids szs inv by (rule children_loop_roundtrip)
  have dv: "DecodeVttc ?hdr startPos ?payload
              = Inr (foldl VttcBox_AddChild (VttcBox None None None None None []) cs, [])"
    unfolding DecodeVttc.simps DecodeContainerChildren.simps loop by simp
  show ?thesis
    unfolding enc DecodeBox_compact_vttc [OF lt n01 le] tk dv
    using u by simp
qed

lemma text_leaf_roundtrip:
  assumes tp: "length tp = 4" "tp \<noteq> ''wvtt''" "tp \<noteq> ''vttc''" "leaf_decoders tp = Some d"
    and small: "8 + length s < 2 ^ 32"
    and d: "\<And>h p r. d h p r = Inr (mk (string_of_bytes (contents (ReadAll r))), [])"
  shows "DecodeBox startPos (EncodeHeader (of_nat (8 + length s)) tp @ bytes_of_string s @ rest)
           = Inr (mk s, rest)"
proof -
  have "8 + length (bytes_of_string s) < 2 ^ 32"
    using small by (simp add: length_bytes_of_string)
  moreover have "d h p (bytes_of_string s) = Inr (mk s, [])" for h p
    by (simp add: d contents_ReadAll string_of_bytes_of_string)
  ultimately show ?thesis
    using leaf_roundtrip [OF tp, of "bytes_of_string s" "mk s" startPos rest]
    by (simp add: length_bytes_of_string)
qed

lemma text_leaf_bound:
  assumes "length (EncodeHeader sz tp @ bs) < 2 ^ 32" "length tp = 4"
  shows "8 + length bs < 2 ^ 32"
  using assms length_EncodeHeader_ge [of tp sz] by simp

lemma DecodeBox_Encode:
  "built T \<Longrightarrow> length (Encode T) < 2 ^ 32 \<Longrightarrow> unat startPos + length (Encode T) < 2 ^ 64
   \<Longrightarrow> DecodeBox startPos (Encode T @ rest) = Inr (T, rest)"
proof (induction T arbitrary: startPos rest)
  case (WvttBox vttC vlab btrt children dri)
  let ?T = "WvttBox vttC vlab btrt children dri"
  let ?n = "length (concat (map Encode children))"
  from Size_is_encoded_length [OF WvttBox.prems(1,2)]
  have "Size ?T < 2 ^ 32" by simp
  then have len: "length (Encode ?T) = 16 + ?n"
    by (simp add: length_EncodeHeader length_be_bytes)
  have b: "built c" if "c \<in> set children" for c
    using WvttBox.prems(1) that by (simp add: list_all_iff)
  have l: "length (Encode c) < 2 ^ 32" if "c \<in> set children" for c
    using length_concat_Encode_elem [OF that] WvttBox.prems(2) len by simp
  have kids: "DecodeBox pos (Encode c @ rest) = Inr (c, rest)"
    if "c \<in> set children" "unat pos + length (Encode c) < 2 ^ 64" for c pos rest
    using that b l by (intro WvttBox.IH(4)) simp_all
  have szs: "Size c = of_nat (length (Encode c)) \<and> 0 < length (Encode c)"
    if "c \<in> set children" for c
    using Size_is_encoded_length [OF b [OF that] l [OF that]] length_Encode_ge [OF b [OF that]]
    by auto
  have "DecodeBox startPos (Encode ?T @ rest)
          = Inr (foldl WvttBox_AddChild (WvttBox None None None [] dri) children, rest)"
    using kids szs WvttBox.prems(2,3) unfolding len by (intro wvtt_roundtrip) simp_all
  with WvttBox.prems(1) show ?case by simp
next
  case (VttcBox vsid iden ctim sttg payl children)
  let ?T = "VttcBox vsid iden ctim sttg payl children"
  let ?n = "length (concat (map Encode children))"
  from Size_is_encoded_length [OF VttcBox.prems(1,2)]
  have "Size ?T < 2 ^ 32" by simp
  then have len: "length (Encode ?T) = 8 + ?n"
    by (simp add: length_EncodeHeader)
  have b: "built c" if "c \<in> set children" for c
    using VttcBox.prems(1) that by (simp add: list_all_iff)
  have l: "length (Encode c) < 2 ^ 32" if "c \<in> set children" for c
    using length_concat_Encode_elem [OF that] VttcBox.prems(2) len by simp
  have kids: "DecodeBox pos (Encode c @ rest) = Inr (c, rest)"
    if "c \<in> set children" "unat pos + length (Encode c) < 2 ^ 64" for c pos rest
    using that b l by (intro VttcBox.IH(6)) simp_all
  have szs: "Size c = of_nat (length (Encode c)) \<and> 0 < length (Encode c)"
    if "c \<in> set children" for c
    using Size_is_encoded_length [OF b [OF that] l [OF that]] length_Encode_ge [OF b [OF that]]
    by auto
  have "DecodeBox startPos (Encode ?T @ rest)
          = Inr (foldl VttcBox_AddChild (VttcBox None None None None None []) children, rest)"
    using kids szs VttcBox.prems(2,3) unfolding len by (intro vttc_roundtrip) simp_all
  with VttcBox.prems(1) show ?case by simp
next
  case (VttCBox s)
  from VttCBox.prems(2) have "8 + length s < 2 ^ 32"
    using text_leaf_bound [of "Size (VttCBox s)" "''vttC''" "bytes_of_string s"]
    by (simp add: length_bytes_of_string)
  then show ?case
    using text_leaf_roundtrip [of "''vttC''" DecodeVttC s VttCBox startPos rest]
    by (simp add: leaf_decoders_def DecodeVttC_def boxHeaderSize_def)
next
  case (VlabBox s)
  from VlabBox.prems(2) have "8 + length s < 2 ^ 32"
    using text_leaf_bound [of "Size (VlabBox s)" "''vlab''" "bytes_of_string s"]
    by (simp add: length_bytes_of_string)
  then show ?case
    using text_leaf_roundtrip [of "''vlab''" DecodeVlab s VlabBox startPos rest]
    by (simp add: leaf_decoders_def DecodeVlab_def boxHeaderSize_def)
next
  case VtteBox
  show ?case
    using leaf_roundtrip [of "''vtte''" DecodeVtte "[]" VtteBox startPos rest]
    by (simp add: leaf_decoders_def DecodeVtte_def boxHeaderSize_def)
next
  case (VsidBox x)
  have "DecodeVsid h p (be_bytes 4 x) = Inr (VsidBox x, [])" for h p
    by (simp add: DecodeVsid_value length_be_bytes be_word_be_bytes_32)
  then show ?case
    using leaf_roundtrip [of "''vsid''" DecodeVsid "be_bytes 4 x" "VsidBox x" startPos rest]
    by (simp add: leaf_decoders_def boxHeaderSize_def length_be_bytes)
next
  case (CtimBox s)
  from CtimBox.prems(2) have "8 + length s < 2 ^ 32"
    using text_leaf_bound [of "Size (CtimBox s)" "''ctim''" "bytes_of_string s"]
    by (simp add: length_bytes_of_string)
  then show ?case
    using text_leaf_roundtrip [of "''ctim''" DecodeCtim s CtimBox startPos rest]
    by (simp add: leaf_decoders_def DecodeCtim_def boxHeaderSize_def)
next
  case (IdenBox s)
  from IdenBox.prems(2) have "8 + length s < 2 ^ 32"
    using text_leaf_bound [of "Size (IdenBox s)" "''iden''" "bytes_of_string s"]
    by (simp add: length_bytes_of_string)
  then show ?case
    using text_leaf_roundtrip [of "''iden''" DecodeIden s IdenBox startPos rest]
    by (simp add: leaf_decoders_def DecodeIden_def boxHeaderSize_def)
next
  case (SttgBox s)
  from SttgBox.prems(2) have "8 + length s < 2 ^ 32"
    using text_leaf_bound [of "Size (SttgBox s)" "''sttg''" "bytes_of_string s"]
    by (simp add: length_bytes_of_string)
  then show ?case
    using text_leaf_roundtrip [of "''sttg''" DecodeSttg s SttgBox startPos rest]
    by (simp add: leaf_decoders_def DecodeSttg_def boxHeaderSize_def)
next
  case (PaylBox s)
  from PaylBox.prems(2) have "8 + length s < 2 ^ 32"
    using text_leaf_bound [of "Size (PaylBox s)" "''payl''" "bytes_of_string s"]
    by (simp add: length_bytes_of_string)
  then show ?case
    using text_leaf_roundtrip [of "''payl''" DecodePayl s PaylBox startPos rest]
    by (simp add: leaf_decoders_def DecodePayl_def boxHeaderSize_def)
next
  case (VttaBox s)
  from VttaBox.prems(2) have "8 + length s < 2 ^ 32"
    using text_leaf_bound [of "Size (VttaBox s)" "''vtta''" "bytes_of_string s"]
    by (simp add: length_bytes_of_string)
  then show ?case
    using text_leaf_roundtrip [of "''vtta''" DecodeVtta s VttaBox startPos rest]
    by (simp add: leaf_decoders_def DecodeVtta_def boxHeaderSize_def)
next
  case (BtrtBox x)
  then show ?case by simp
next
  case (UnknownBox n x)
  then show ?case by simp
qed

lemma decodeHeader_consumes: "decodeHeader r = Inr (h, r1) \<Longrightarrow> length r1 < length r"
  by (auto simp: decodeHeader_def Let_def split: if_splits)

lemma dispatch_result:
  "(case X of Inl e \<Rightarrow> Inl e | Inr (b, unread) \<Rightarrow> Inr (b, drop (k - length unread) r1))
     = Inr (b', r') \<Longrightarrow> \<exists>j. r' = drop j r1"
  by (cases X) auto

lemma DecodeBox_consumes:
  assumes "DecodeBox pos r = Inr (b, r')"
  shows "length r' < length r"
proof (cases "decodeHeader r")
  case (Inl e)
  with assms show ?thesis by (simp add: DecodeBox.simps)
next
  case (Inr p)
  then obtain h r1 where h: "decodeHeader r = Inr (h, r1)" by (cases p) auto
  from assms have "\<exists>j. r' = drop j r1"
    unfolding DecodeBox.simps [of pos r] h Let_def
    by (simp split: if_splits) (erule dispatch_result)+
  then obtain j where "r' = drop j r1" ..
  with decodeHeader_consumes [OF h] show ?thesis by simp
qed

lemma built_foldl_WvttBox_AddChild:
  assumes "list_all built cs"
  shows "built (foldl WvttBox_AddChild (WvttBox None None None [] dri) cs)"
proof -
  from foldl_WvttBox_AddChild_is_WvttBox [of None None None "[]" dri cs]
  obtain a b c where
    "foldl WvttBox_AddChild (WvttBox None None None [] dri) cs = WvttBox a b c cs dri"
    by auto
  with assms show ?thesis by simp
qed

lemma built_foldl_VttcBox_AddChild:
  assumes "list_all built cs"
  shows "built (foldl VttcBox_AddChild (VttcBox None None None None None []) cs)"
proof -
  from foldl_VttcBox_AddChild_is_VttcBox [of None None None None None "[]" cs]
  obtain a b c d e where
    "foldl VttcBox_AddChild (VttcBox None None None None None []) cs = VttcBox a b c d e cs"
    by auto
  with assms show ?thesis by simp
qed

lemma example_wvtt_built: "built example_wvtt"
  by code_simp

lemma example_wvtt_length: "length (Encode example_wvtt) = 120"
  by code_simp

text \<open>
  C4. Let \<open>T\<close> be a tree of the wvtt family as the constructors and \<open>AddChild\<close> build it
  (\<open>built\<close>), whose encoding is shorter than \<open>2^32\<close> bytes, so that every header in it is
  compact, and let it start at an offset from which its bytes do not run over \<open>2^64\<close>.
  Then decoding the bytes that \<open>Encode\<close> writes for \<open>T\<close> returns \<open>T\<close> itself, every field of
  every box of it, and leaves exactly what followed these bytes in the source. The
  size of the decoded tree is the size of \<open>T\<close>, and it is the number of bytes written.
\<close>

theorem wvtt_family_round_trip:
  assumes "built T"
    and "length (Encode T) < 2 ^ 32"
    and "unat startPos + length (Encode T) < 2 ^ 64"
  shows "DecodeBox startPos (Encode T @ rest) = Inr (T, rest)
    \<and> (\<exists>T'. DecodeBox startPos (Encode T) = Inr (T', [])
           \<and> Size T' = Size T \<and> Size T' = of_nat (length (Encode T)))"
proof -
  have "DecodeBox startPos (Encode T @ rest) = Inr (T, rest)"
    using assms by (rule DecodeBox_Encode)
  moreover have "DecodeBox startPos (Encode T @ []) = Inr (T, [])"
    using assms by (rule DecodeBox_Encode)
  moreover have "Size T = of_nat (length (Encode T))"
    using Size_is_encoded_length [OF assms(1,2)] by simp
  ultimately show ?thesis by simp
qed

theorem wvtt_family_round_trip_witness:
  "built example_wvtt
   \<and> length (Encode example_wvtt) = 120
   \<and> DecodeBox 0 (Encode example_wvtt @ [1, 2, 3]) = Inr (example_wvtt, [1, 2, 3])
   \<and> (\<exists>T'. DecodeBox 0 (Encode example_wvtt) = Inr (T', [])
          \<and> Size T' = Size example_wvtt \<and> Size T' = 120)"
  using wvtt_family_round_trip [of example_wvtt 0 "[1, 2, 3]"]
  by (simp add: example_wvtt_built example_wvtt_length)

end
